theory Spec2Isabelle
  imports Complex_Main "HOL-Library.Word"
begin

unbundle bit_operations_syntax

section \<open>JavaScript numbers, errors and byte buffers\<close>

text \<open>
  The voice pipeline of the chat component (\<^verbatim>\<open>startRecording\<close>, \<^verbatim>\<open>stopRecording\<close>,
  \<^verbatim>\<open>resampleAudio\<close>, \<^verbatim>\<open>bufferToWav\<close>, \<^verbatim>\<open>writeString\<close>, \<^verbatim>\<open>toggleRecording\<close>) and
  \<^verbatim>\<open>transcribeAudio\<close> of the REST client are embedded as HOL functions.

  Finite JavaScript numbers are reals. All sample arithmetic of the encoder is exact in
  binary64 (a binary32 sample times a 15-bit constant), so no rounding is lost by this.
  The quotient and the product that give the rendering length in \<^verbatim>\<open>resampleAudio\<close> are not
  exact: they are rounded to binary64, as the code computes them.
  A thrown exception or a rejected promise is the left summand of a sum type.
\<close>

datatype js_error =
    RangeError
  | IndexSizeError
  | NotSupportedError
  | NotAllowedError
  | EncodingError
  | NetworkError
  | SyntaxError
  | TypeError
  | Error string

type_synonym byte = "8 word"

text \<open>A sequence of statements, each of which may throw: the first exception ends it.\<close>

fun seqE :: "('a \<Rightarrow> 'e + 'a) list \<Rightarrow> 'a \<Rightarrow> 'e + 'a" where
  "seqE [] x = Inr x"
| "seqE (f # fs) x = (case f x of Inl e \<Rightarrow> Inl e | Inr y \<Rightarrow> seqE fs y)"

fun mapE :: "('a \<Rightarrow> 'e + 'b) \<Rightarrow> 'a list \<Rightarrow> 'e + 'b list" where
  "mapE f [] = Inr []"
| "mapE f (x # xs) =
     (case f x of Inl e \<Rightarrow> Inl e
      | Inr y \<Rightarrow> (case mapE f xs of Inl e \<Rightarrow> Inl e | Inr ys \<Rightarrow> Inr (y # ys)))"

text \<open>
  The integer conversions of ECMAScript (\<^verbatim>\<open>ToUint8\<close>, \<^verbatim>\<open>ToUint16\<close>, \<^verbatim>\<open>ToInt16\<close>,
  \<^verbatim>\<open>ToUint32\<close>) on a finite number: drop the fraction (towards zero), then reduce modulo
  \<open>2 ^ w\<close>. \<^verbatim>\<open>ToInt16\<close> and \<^verbatim>\<open>ToUint16\<close> give the same 16 bits; \<open>sint\<close> reads them signed.
\<close>

definition IntegerPart :: "real \<Rightarrow> int" where
  "IntegerPart x = (if x < 0 then \<lceil>x\<rceil> else \<lfloor>x\<rfloor>)"

definition ToUint8 :: "real \<Rightarrow> 8 word" where
  "ToUint8 x = word_of_int (IntegerPart x)"

definition ToUint16 :: "real \<Rightarrow> 16 word" where
  "ToUint16 x = word_of_int (IntegerPart x)"

definition ToInt16 :: "real \<Rightarrow> 16 word" where
  "ToInt16 x = word_of_int (IntegerPart x)"

definition ToUint32 :: "real \<Rightarrow> 32 word" where
  "ToUint32 x = word_of_int (IntegerPart x)"

text \<open>
  Arithmetic on numbers is that of binary64: the exact result, rounded to the nearest
  number of the format, a tie going to the even significand. The numbers of magnitude
  from \<open>2 ^ e\<close> up to \<open>2 ^ (e + 1)\<close> are the multiples of \<open>2 ^ (e - 52)\<close>, for \<open>e\<close> from -1022
  on (below are the subnormal numbers, multiples of \<open>2 ^ - 1074\<close>); a result that rounds
  to \<open>2 ^ 1024\<close> or beyond is infinite. The result of an operation is a finite number, or
  none: an infinity or \<^verbatim>\<open>NaN\<close>, as when dividing by zero.
\<close>

definition round_ties_even :: "real \<Rightarrow> int" where
  "round_ties_even x =
     (let f = \<lfloor>x\<rfloor>; r = x - of_int f
      in if r < 1 / 2 then f else if 1 / 2 < r then f + 1 else if even f then f else f + 1)"

definition binary64 :: "real \<Rightarrow> real option" where
  "binary64 x =
     (if x = 0 then Some 0
      else
        let e = max \<lfloor>log 2 \<bar>x\<bar>\<rfloor> (- 1022);
            y = of_int (round_ties_even (x * 2 powi (52 - e))) * 2 powi (e - 52)
        in if \<bar>y\<bar> < 2 powi 1024 then Some y else None)"

definition js_div :: "real \<Rightarrow> real \<Rightarrow> real option" where
  "js_div x y = (if y = 0 then None else binary64 (x / y))"

definition js_mul :: "real option \<Rightarrow> real \<Rightarrow> real option" where
  "js_mul a y = (case a of None \<Rightarrow> None | Some x \<Rightarrow> binary64 (x * y))"

text \<open>The bytes of a 16-bit and of a 32-bit value, in either byte order.\<close>

definition bytes16 :: "bool \<Rightarrow> 16 word \<Rightarrow> byte list" where
  "bytes16 littleEndian w =
     (let bs = [ucast w, ucast (drop_bit 8 w)] in if littleEndian then bs else rev bs)"

definition bytes32 :: "bool \<Rightarrow> 32 word \<Rightarrow> byte list" where
  "bytes32 littleEndian w =
     (let bs = [ucast w, ucast (drop_bit 8 w), ucast (drop_bit 16 w), ucast (drop_bit 24 w)]
      in if littleEndian then bs else rev bs)"

text \<open>
  A \<^verbatim>\<open>DataView\<close> over a fresh \<^verbatim>\<open>ArrayBuffer\<close> is its byte list. A setter writes in place and
  throws \<^verbatim>\<open>RangeError\<close> when the bytes do not fit in the buffer.
\<close>

fun store :: "byte list \<Rightarrow> nat \<Rightarrow> byte list \<Rightarrow> byte list" where
  "store dv off [] = dv"
| "store dv off (b # bs) = store (dv[off := b]) (Suc off) bs"

definition setBytes :: "byte list \<Rightarrow> nat \<Rightarrow> byte list \<Rightarrow> js_error + byte list" where
  "setBytes dv byteOffset bs =
     (if byteOffset + length bs \<le> length dv then Inr (store dv byteOffset bs) else Inl RangeError)"

definition setUint8 :: "byte list \<Rightarrow> nat \<Rightarrow> real \<Rightarrow> js_error + byte list" where
  "setUint8 dv byteOffset v = setBytes dv byteOffset [ToUint8 v]"

definition setUint16 :: "byte list \<Rightarrow> nat \<Rightarrow> real \<Rightarrow> bool \<Rightarrow> js_error + byte list" where
  "setUint16 dv byteOffset v littleEndian = setBytes dv byteOffset (bytes16 littleEndian (ToUint16 v))"

definition setInt16 :: "byte list \<Rightarrow> nat \<Rightarrow> real \<Rightarrow> bool \<Rightarrow> js_error + byte list" where
  "setInt16 dv byteOffset v littleEndian = setBytes dv byteOffset (bytes16 littleEndian (ToInt16 v))"

definition setUint32 :: "byte list \<Rightarrow> nat \<Rightarrow> real \<Rightarrow> bool \<Rightarrow> js_error + byte list" where
  "setUint32 dv byteOffset v littleEndian = setBytes dv byteOffset (bytes32 littleEndian (ToUint32 v))"

section \<open>The WAV encoder\<close>

text \<open>
  An \<^verbatim>\<open>AudioBuffer\<close>: \<open>length_buf\<close> is its \<^verbatim>\<open>length\<close> in sample frames, \<open>channelData\<close> holds one
  \<^verbatim>\<open>Float32Array\<close> per channel, \<^verbatim>\<open>numberOfChannels\<close> is the number of these arrays. In a
  buffer of the platform every channel has \<open>length_buf\<close> samples (\<open>wf_AudioBuffer\<close>).
\<close>

record AudioBuffer =
  length_buf :: nat
  sampleRate :: real
  channelData :: "real list list"

definition numberOfChannels :: "AudioBuffer \<Rightarrow> nat" where
  "numberOfChannels buffer = length (channelData buffer)"

definition wf_AudioBuffer :: "AudioBuffer \<Rightarrow> bool" where
  "wf_AudioBuffer buffer = list_all (\<lambda>ch. length ch = length_buf buffer) (channelData buffer)"

definition getChannelData :: "AudioBuffer \<Rightarrow> nat \<Rightarrow> js_error + real list" where
  "getChannelData buffer i =
     (if i < numberOfChannels buffer then Inr (channelData buffer ! i) else Inl IndexSizeError)"

text \<open>Reading a typed array past its end gives \<^verbatim>\<open>undefined\<close>: \<open>None\<close>.\<close>

definition Float32Array_get :: "real list \<Rightarrow> nat \<Rightarrow> real option" where
  "Float32Array_get a i = (if i < length a then Some (a ! i) else None)"

definition charCodeAt :: "string \<Rightarrow> nat \<Rightarrow> real" where
  "charCodeAt s i = real (of_char (s ! i))"

text \<open>
  \<^verbatim>\<open>for (let i = 0; i < string.length; i++) dataView.setUint8(offset + i, string.charCodeAt(i))\<close>
\<close>

definition writeString :: "byte list \<Rightarrow> nat \<Rightarrow> string \<Rightarrow> js_error + byte list" where
  "writeString dataView offset string =
     seqE (map (\<lambda>i dv. setUint8 dv (offset + i) (charCodeAt string i)) [0..<length string]) dataView"

text \<open>
  The clamp and the scaling of one sample:
  \<^verbatim>\<open>const sample = Math.max(-1, Math.min(1, channels[j][i]));\<close> and
  \<^verbatim>\<open>sample < 0 ? sample * 0x8000 : sample * 0x7FFF\<close>.
\<close>

definition clamp_sample :: "real \<Rightarrow> real" where
  "clamp_sample x = max (- 1) (min 1 x)"

definition scale_sample :: "real \<Rightarrow> real" where
  "scale_sample sample = (if sample < 0 then sample * 32768 else sample * 32767)"

text \<open>
  The body of the inner loop, on the pair of \<^verbatim>\<open>offset\<close> and the view. An \<^verbatim>\<open>undefined\<close>
  sample makes every intermediate value \<^verbatim>\<open>NaN\<close>, \<^verbatim>\<open>NaN < 0\<close> is false, and \<^verbatim>\<open>setInt16\<close>
  stores \<^verbatim>\<open>NaN\<close> as 0.
\<close>

definition write_sample ::
  "real list list \<Rightarrow> nat \<Rightarrow> nat \<Rightarrow> nat \<times> byte list \<Rightarrow> js_error + nat \<times> byte list" where
  "write_sample channels i j = (\<lambda>(offset, dv).
     (case (case Float32Array_get (channels ! j) i of
              None \<Rightarrow> setInt16 dv offset 0 True
            | Some x \<Rightarrow> setInt16 dv offset (scale_sample (clamp_sample x)) True) of
        Inl e \<Rightarrow> Inl e
      | Inr dv' \<Rightarrow> Inr (offset + 2, dv')))"

definition write_header :: "nat \<Rightarrow> nat \<Rightarrow> real \<Rightarrow> byte list \<Rightarrow> js_error + byte list" where
  "write_header numOfChannels len rate =
     seqE
      [\<lambda>dv. writeString dv 0 ''RIFF'',
       \<lambda>dv. setUint32 dv 4 (real (36 + len)) True,
       \<lambda>dv. writeString dv 8 ''WAVE'',
       \<lambda>dv. writeString dv 12 ''fmt '',
       \<lambda>dv. setUint32 dv 16 16 True,
       \<lambda>dv. setUint16 dv 20 1 True,
       \<lambda>dv. setUint16 dv 22 (real numOfChannels) True,
       \<lambda>dv. setUint32 dv 24 rate True,
       \<lambda>dv. setUint32 dv 28 (rate * real numOfChannels * 2) True,
       \<lambda>dv. setUint16 dv 32 (real (numOfChannels * 2)) True,
       \<lambda>dv. setUint16 dv 34 16 True,
       \<lambda>dv. writeString dv 36 ''data'',
       \<lambda>dv. setUint32 dv 40 (real len) True]"

definition write_data ::
  "real list list \<Rightarrow> nat \<Rightarrow> nat \<Rightarrow> nat \<times> byte list \<Rightarrow> js_error + nat \<times> byte list" where
  "write_data channels frames numOfChannels =
     seqE (map (\<lambda>i. seqE (map (write_sample channels i) [0..<numOfChannels])) [0..<frames])"

definition bufferToWav :: "AudioBuffer \<Rightarrow> js_error + byte list" where
  "bufferToWav buffer =
     (let numOfChannels = numberOfChannels buffer;
          len = length_buf buffer * numOfChannels * 2;
          rate = sampleRate buffer;
          wavDataView = replicate (44 + len) 0
      in case write_header numOfChannels len rate wavDataView of
           Inl e \<Rightarrow> Inl e
         | Inr dv \<Rightarrow>
             (case mapE (getChannelData buffer) [0..<numOfChannels] of
                Inl e \<Rightarrow> Inl e
              | Inr channels \<Rightarrow>
                  (case write_data channels (length_buf buffer) numOfChannels (44, dv) of
                     Inl e \<Rightarrow> Inl e
                   | Inr (offset, dv') \<Rightarrow> Inr dv')))"

section \<open>The resampler\<close>

text \<open>
  The browser is a parameter of the model: reading the blob, decoding it (\<open>decodeAudioData\<close>
  stands for making the \<^verbatim>\<open>AudioContext\<close> with the rate asked for and decoding in it), the
  channel counts and rates an offline context supports, the samples an offline rendering
  produces, and the network. A value of JavaScript is what parsing JSON gives, or
  \<^verbatim>\<open>undefined\<close>; an object lists each of its properties once.
\<close>

record OfflineAudioContext =
  oac_numberOfChannels :: nat
  oac_length :: nat
  oac_sampleRate :: real

datatype jsval =
    Undefined
  | Null
  | Bool bool
  | Num real
  | Str string
  | Arr "jsval list"
  | Obj "(string \<times> jsval) list"

record FormDataEntry =
  fd_name :: string
  fd_blob :: "byte list"
  fd_filename :: string

record Request =
  url :: string
  http_method :: string
  mode :: string
  headers :: "(string \<times> string) list"
  body :: "FormDataEntry list"

record Response =
  status :: nat
  json :: "js_error + jsval"

record Platform =
  readAsArrayBuffer :: "byte list \<Rightarrow> js_error + byte list"
  decodeAudioData :: "real \<Rightarrow> byte list \<Rightarrow> js_error + AudioBuffer"
  supportsOffline :: "nat \<Rightarrow> real \<Rightarrow> bool"
  startRendering :: "OfflineAudioContext \<Rightarrow> AudioBuffer \<Rightarrow> js_error + (nat \<Rightarrow> nat \<Rightarrow> real)"
  fetch :: "Request \<Rightarrow> js_error + Response"

text \<open>
  \<^verbatim>\<open>AudioBuffer.duration\<close>: the length in frames over the sample rate, a quotient of two
  binary64 numbers.
\<close>

definition duration :: "AudioBuffer \<Rightarrow> real option" where
  "duration buffer = js_div (real (length_buf buffer)) (sampleRate buffer)"

text \<open>
  \<^verbatim>\<open>new OfflineAudioContext(numberOfChannels, length, sampleRate)\<close>. The \<^verbatim>\<open>length\<close> parameter
  is an \<^verbatim>\<open>unsigned long\<close>: the number passed is converted as by \<^verbatim>\<open>ToUint32\<close>, an infinity
  or \<^verbatim>\<open>NaN\<close> to 0. The constructor throws \<^verbatim>\<open>NotSupportedError\<close> on a zero argument and outside
  the supported ranges.
\<close>

definition new_OfflineAudioContext ::
  "Platform \<Rightarrow> nat \<Rightarrow> real option \<Rightarrow> real \<Rightarrow> js_error + OfflineAudioContext" where
  "new_OfflineAudioContext P channels lengthArg rate =
     (let len = (case lengthArg of None \<Rightarrow> 0 | Some x \<Rightarrow> unat (ToUint32 x))
      in if channels = 0 \<or> len = 0 \<or> rate \<le> 0 \<or> \<not> supportsOffline P channels rate
         then Inl NotSupportedError
         else Inr \<lparr>oac_numberOfChannels = channels, oac_length = len, oac_sampleRate = rate\<rparr>)"

text \<open>
  The rendered buffer has the channel count, length and rate of its context; the
  platform decides the samples.
\<close>

definition render :: "Platform \<Rightarrow> OfflineAudioContext \<Rightarrow> AudioBuffer \<Rightarrow> js_error + AudioBuffer" where
  "render P ctx source =
     (case startRendering P ctx source of
        Inl e \<Rightarrow> Inl e
      | Inr samples \<Rightarrow>
          Inr \<lparr>length_buf = oac_length ctx, sampleRate = oac_sampleRate ctx,
               channelData =
                 map (\<lambda>c. map (samples c) [0..<oac_length ctx]) [0..<oac_numberOfChannels ctx]\<rparr>)"

text \<open>
  \<^verbatim>\<open>resampleAudio\<close> up to \<^verbatim>\<open>startRendering\<close>, and then with the encoder. The length asked of
  the offline context is \<^verbatim>\<open>audioBuffer.duration * targetSampleRate\<close>, a binary64 product.
\<close>

definition resampleAudio_render :: "Platform \<Rightarrow> byte list \<Rightarrow> real \<Rightarrow> js_error + AudioBuffer" where
  "resampleAudio_render P audioBlob targetSampleRate =
     (case readAsArrayBuffer P audioBlob of
        Inl e \<Rightarrow> Inl (Error ''Error reading file'')
      | Inr arrayBuffer \<Rightarrow>
          (case decodeAudioData P targetSampleRate arrayBuffer of
             Inl e \<Rightarrow> Inl e
           | Inr audioBuffer \<Rightarrow>
               (case new_OfflineAudioContext P (numberOfChannels audioBuffer)
                       (js_mul (duration audioBuffer) targetSampleRate) targetSampleRate of
                  Inl e \<Rightarrow> Inl e
                | Inr offlineContext \<Rightarrow> render P offlineContext audioBuffer)))"

definition resampleAudio :: "Platform \<Rightarrow> byte list \<Rightarrow> real \<Rightarrow> js_error + byte list" where
  "resampleAudio P audioBlob targetSampleRate =
     (case resampleAudio_render P audioBlob targetSampleRate of
        Inl e \<Rightarrow> Inl e
      | Inr renderedBuffer \<Rightarrow> bufferToWav renderedBuffer)"

section \<open>The transcription client\<close>

definition API_BASE_URL :: "string option \<Rightarrow> string" where
  "API_BASE_URL env =
     (case env of
        None \<Rightarrow> ''https://aged-voice-9300.ploomber.app/''
      | Some u \<Rightarrow> if u = [] then ''https://aged-voice-9300.ploomber.app/'' else u)"

definition ok :: "Response \<Rightarrow> bool" where
  "ok response = (200 \<le> status response \<and> status response \<le> 299)"

text \<open>Reading a property of a parsed JSON value: \<^verbatim>\<open>data.transcript\<close>.\<close>

fun get_property :: "jsval \<Rightarrow> string \<Rightarrow> js_error + jsval" where
  "get_property Undefined k = Inl TypeError"
| "get_property Null k = Inl TypeError"
| "get_property (Obj kvs) k = (case map_of kvs k of None \<Rightarrow> Inr Undefined | Some v \<Rightarrow> Inr v)"
| "get_property v k = Inr Undefined"

text \<open>
  The request of \<^verbatim>\<open>transcribeAudio\<close>: the default options, then \<^verbatim>\<open>method\<close>, \<^verbatim>\<open>body\<close> and the
  emptied \<^verbatim>\<open>headers\<close>.
\<close>

definition transcribe_request :: "string option \<Rightarrow> byte list \<Rightarrow> Request" where
  "transcribe_request env audioBlob =
     \<lparr>url = API_BASE_URL env @ ''/transcribe'', http_method = ''POST'', mode = ''cors'',
      headers = [],
      body = [\<lparr>fd_name = ''audio'', fd_blob = audioBlob, fd_filename = ''recording.wav''\<rparr>]\<rparr>"

text \<open>A call of \<^verbatim>\<open>fetch\<close> appends its request to the log of requests sent.\<close>

definition do_fetch :: "Platform \<Rightarrow> Request list \<Rightarrow> Request \<Rightarrow> Request list \<times> (js_error + Response)" where
  "do_fetch P sent req = (sent @ [req], fetch P req)"

definition transcribeAudio ::
  "Platform \<Rightarrow> string option \<Rightarrow> byte list \<Rightarrow> Request list \<Rightarrow> Request list \<times> (js_error + jsval)" where
  "transcribeAudio P env audioBlob sent =
     (case do_fetch P sent (transcribe_request env audioBlob) of
        (sent', Inl e) \<Rightarrow> (sent', Inl e)
      | (sent', Inr response) \<Rightarrow>
          if \<not> ok response then (sent', Inl (Error ''Failed to transcribe audio''))
          else (case json response of
                  Inl e \<Rightarrow> (sent', Inl e)
                | Inr data \<Rightarrow> (sent', get_property data ''transcript'')))"

section \<open>The capture session of the chat component\<close>

text \<open>
  The component's state: its React state (\<open>voiceState\<close>, \<open>isTranscribing\<close>, \<open>inputText\<close>),
  its two refs, and the platform objects it has created: the recorders, the streams (with
  whether their tracks are live), the calls of \<^verbatim>\<open>MediaRecorder.stop\<close> and the requests sent.
  A recorder or a stream is named by its index in its list.
\<close>

datatype RecordingState = inactive | recording | paused

record VoiceRecordingState =
  isRecording :: bool
  error :: "string option"

record MediaRecorder =
  state :: RecordingState
  stream :: nat

record ChatInterface =
  voiceState :: VoiceRecordingState
  isTranscribing :: bool
  inputText :: jsval
  mediaRecorderRef :: "nat option"
  audioChunksRef :: "byte list list"
  recorders :: "MediaRecorder list"
  streams :: "bool list"
  stopCalls :: "nat list"
  requests :: "Request list"

definition initial :: ChatInterface where
  "initial =
     \<lparr>voiceState = \<lparr>isRecording = False, error = None\<rparr>, isTranscribing = False,
      inputText = Str [], mediaRecorderRef = None, audioChunksRef = [], recorders = [],
      streams = [], stopCalls = [], requests = []\<rparr>"

definition lookup :: "'a list \<Rightarrow> nat \<Rightarrow> 'a option" where
  "lookup xs i = (if i < length xs then Some (xs ! i) else None)"

definition live :: "ChatInterface \<Rightarrow> nat \<Rightarrow> bool" where
  "live s sid = (lookup (streams s) sid = Some True)"

text \<open>
  \<^verbatim>\<open>startRecording\<close> up to its \<^verbatim>\<open>await\<close> of \<^verbatim>\<open>getUserMedia\<close>, and from there on with the
  outcome of the request: a rejection goes to the \<^verbatim>\<open>catch\<close>, a grant is a new live stream.
\<close>

definition startRecording_begin :: "ChatInterface \<Rightarrow> ChatInterface" where
  "startRecording_begin s = s\<lparr>voiceState := \<lparr>isRecording = True, error = None\<rparr>\<rparr>"

definition startRecording_resume :: "ChatInterface \<Rightarrow> js_error + unit \<Rightarrow> ChatInterface" where
  "startRecording_resume s granted =
     (case granted of
        Inl e \<Rightarrow> s\<lparr>voiceState := \<lparr>isRecording = False, error = Some ''Error starting recording''\<rparr>\<rparr>
      | Inr _ \<Rightarrow>
          s\<lparr>streams := streams s @ [True],
            recorders := recorders s @ [\<lparr>state = recording, stream = length (streams s)\<rparr>],
            mediaRecorderRef := Some (length (recorders s)),
            audioChunksRef := []\<rparr>)"

definition startRecording :: "ChatInterface \<Rightarrow> js_error + unit \<Rightarrow> ChatInterface" where
  "startRecording s granted = startRecording_resume (startRecording_begin s) granted"

definition ondataavailable :: "ChatInterface \<Rightarrow> byte list \<Rightarrow> ChatInterface" where
  "ondataavailable s data =
     (if length data > 0 then s\<lparr>audioChunksRef := audioChunksRef s @ [data]\<rparr> else s)"

text \<open>\<^verbatim>\<open>MediaRecorder.stop()\<close> on recorder \<open>r\<close>: the recorder becomes inactive.\<close>

definition MediaRecorder_stop :: "ChatInterface \<Rightarrow> nat \<Rightarrow> ChatInterface" where
  "MediaRecorder_stop s r =
     s\<lparr>recorders := (recorders s)[r := (recorders s ! r)\<lparr>state := inactive\<rparr>],
       stopCalls := stopCalls s @ [r]\<rparr>"

definition stopRecording :: "ChatInterface \<Rightarrow> ChatInterface" where
  "stopRecording s =
     (case mediaRecorderRef s of
        None \<Rightarrow> s
      | Some r \<Rightarrow>
          (case lookup (recorders s) r of
             None \<Rightarrow> s
           | Some mediaRecorder \<Rightarrow>
               if state mediaRecorder \<noteq> inactive then MediaRecorder_stop s r else s))"

definition toggleRecording :: "ChatInterface \<Rightarrow> ChatInterface" where
  "toggleRecording s =
     (if isRecording (voiceState s) then stopRecording s else startRecording_begin s)"

text \<open>
  \<^verbatim>\<open>mediaRecorder.onstop\<close> of the recorder whose stream is \<open>sid\<close>: the two state updates, the
  \<^verbatim>\<open>try\<close> block (the pipeline), and what follows once the pipeline has settled.
\<close>

definition onstop_begin :: "ChatInterface \<Rightarrow> ChatInterface" where
  "onstop_begin s =
     s\<lparr>voiceState := \<lparr>isRecording = False, error = None\<rparr>, isTranscribing := True\<rparr>"

definition voice_pipeline ::
  "Platform \<Rightarrow> string option \<Rightarrow> byte list list \<Rightarrow> Request list \<Rightarrow> Request list \<times> (js_error + jsval)" where
  "voice_pipeline P env chunks sent =
     (let audioBlob = concat chunks
      in case resampleAudio P audioBlob 16000 of
           Inl e \<Rightarrow> (sent, Inl e)
         | Inr resampledBlob \<Rightarrow> transcribeAudio P env resampledBlob sent)"

definition onstop_finish :: "ChatInterface \<Rightarrow> nat \<Rightarrow> js_error + jsval \<Rightarrow> ChatInterface" where
  "onstop_finish s sid outcome =
     (let s2 = (case outcome of
                  Inr transcript \<Rightarrow> s\<lparr>inputText := transcript\<rparr>
                | Inl e \<Rightarrow> s\<lparr>voiceState := \<lparr>isRecording = False, error = Some ''Error processing audio''\<rparr>\<rparr>);
          s3 = s2\<lparr>isTranscribing := False\<rparr>
      in s3\<lparr>streams := (streams s3)[sid := False]\<rparr>)"


section \<open>The component driven by its events\<close>

text \<open>
  The handlers above run when the user clicks the microphone button (which is disabled
  while \<open>isTranscribing\<close>) and when the platform delivers an event: the request for the
  microphone is granted or denied, a recorder that is recording or being stopped has data,
  the tracks of a recording recorder end (the recorder then stops by itself), a stopped
  recorder fires its \<^verbatim>\<open>stop\<close> event, and the pipeline that \<^verbatim>\<open>onstop\<close> awaits settles. Besides the
  component, the world holds what is pending: the calls of \<^verbatim>\<open>startRecording\<close> that await
  \<^verbatim>\<open>getUserMedia\<close>, the recorders whose \<^verbatim>\<open>stop\<close> event is yet to be delivered, and the
  \<^verbatim>\<open>onstop\<close> handlers that await their pipeline, each with its outcome.
\<close>

record World =
  component :: ChatInterface
  pendingStarts :: nat
  pendingStops :: "nat list"
  pipelines :: "(nat \<times> Request list \<times> (js_error + jsval)) list"

datatype event =
    Click
  | Granted
  | Denied js_error
  | DataAvailable nat "byte list"
  | TracksEnded nat
  | StopEvent nat
  | Settled nat

definition initial_world :: World where
  "initial_world = \<lparr>component = initial, pendingStarts = 0, pendingStops = [], pipelines = []\<rparr>"

definition is_recording :: "ChatInterface \<Rightarrow> nat \<Rightarrow> bool" where
  "is_recording c r = (case lookup (recorders c) r of None \<Rightarrow> False | Some m \<Rightarrow> state m = recording)"

fun step :: "Platform \<Rightarrow> string option \<Rightarrow> World \<Rightarrow> event \<Rightarrow> World option" where
  "step P env w Click =
     (if isTranscribing (component w) then None
      else
        let c' = toggleRecording (component w)
        in Some (w\<lparr>component := c',
                  pendingStarts :=
                    (if isRecording (voiceState (component w)) then pendingStarts w
                     else Suc (pendingStarts w)),
                  pendingStops :=
                    pendingStops w @ drop (length (stopCalls (component w))) (stopCalls c')\<rparr>))"
| "step P env w Granted =
     (if pendingStarts w = 0 then None
      else Some (w\<lparr>component := startRecording_resume (component w) (Inr ()),
                   pendingStarts := pendingStarts w - 1\<rparr>))"
| "step P env w (Denied e) =
     (if pendingStarts w = 0 then None
      else Some (w\<lparr>component := startRecording_resume (component w) (Inl e),
                   pendingStarts := pendingStarts w - 1\<rparr>))"
| "step P env w (DataAvailable r d) =
     (if is_recording (component w) r \<or> r \<in> set (pendingStops w)
      then Some (w\<lparr>component := ondataavailable (component w) d\<rparr>)
      else None)"
| "step P env w (TracksEnded r) =
     (if is_recording (component w) r
      then Some (w\<lparr>component := (component w)\<lparr>recorders :=
                     (recorders (component w))[r := (recorders (component w) ! r)\<lparr>state := inactive\<rparr>]\<rparr>,
                   pendingStops := pendingStops w @ [r]\<rparr>)
      else None)"
| "step P env w (StopEvent r) =
     (if r \<in> set (pendingStops w)
      then
        let s1 = onstop_begin (component w);
            (sent, outcome) = voice_pipeline P env (audioChunksRef s1) (requests s1)
        in Some (w\<lparr>component := s1,
                  pendingStops := removeAll r (pendingStops w),
                  pipelines := pipelines w @ [(r, sent, outcome)]\<rparr>)
      else None)"
| "step P env w (Settled r) =
     (case find (\<lambda>p. fst p = r) (pipelines w) of
        None \<Rightarrow> None
      | Some (r', sent, outcome) \<Rightarrow>
          (case lookup (recorders (component w)) r of
             None \<Rightarrow> None
           | Some m \<Rightarrow>
               Some (w\<lparr>component := onstop_finish ((component w)\<lparr>requests := sent\<rparr>) (stream m) outcome,
                        pipelines := filter (\<lambda>p. fst p \<noteq> r) (pipelines w)\<rparr>)))"

fun run :: "Platform \<Rightarrow> string option \<Rightarrow> World \<Rightarrow> event list \<Rightarrow> World option" where
  "run P env w [] = Some w"
| "run P env w (e # es) = (case step P env w e of None \<Rightarrow> None | Some w' \<Rightarrow> run P env w' es)"

text \<open>The handler \<^verbatim>\<open>ondataavailable\<close> on a sequence of data events.\<close>

definition feed :: "ChatInterface \<Rightarrow> byte list list \<Rightarrow> ChatInterface" where
  "feed s ds = fold (\<lambda>d s'. ondataavailable s' d) ds s"

section \<open>Vocabulary of the statements\<close>

text \<open>
  Byte strings the statements below are written with: ASCII text, unsigned 16-bit and
  32-bit values and signed 16-bit values in little-endian order, and how such bytes are
  read back as numbers.
\<close>

definition ascii :: "string \<Rightarrow> byte list" where
  "ascii s = map (\<lambda>c. of_nat (of_char c)) s"

definition u16le :: "nat \<Rightarrow> byte list" where
  "u16le n = bytes16 True (of_nat n)"

definition u32le :: "nat \<Rightarrow> byte list" where
  "u32le n = bytes32 True (of_nat n)"

definition s16le :: "int \<Rightarrow> byte list" where
  "s16le k = bytes16 True (word_of_int k)"

fun le_value :: "byte list \<Rightarrow> nat" where
  "le_value [] = 0"
| "le_value (b # bs) = unat b + 256 * le_value bs"

definition s16_value :: "byte list \<Rightarrow> int" where
  "s16_value bs = sint (word_of_nat (le_value bs) :: 16 word)"

text \<open>The data section of a WAV file read as signed 16-bit little-endian samples.\<close>

fun pcm16 :: "byte list \<Rightarrow> int list" where
  "pcm16 (lo # hi # bs) = s16_value [lo, hi] # pcm16 bs"
| "pcm16 bs = []"

text \<open>The 44 header bytes and the data bytes that \<open>bufferToWav\<close> writes.\<close>

definition header_bytes :: "nat \<Rightarrow> nat \<Rightarrow> real \<Rightarrow> byte list" where
  "header_bytes numOfChannels len rate =
     ascii ''RIFF'' @ bytes32 True (ToUint32 (real (36 + len))) @ ascii ''WAVE'' @ ascii ''fmt '' @
     bytes32 True (ToUint32 16) @ bytes16 True (ToUint16 1) @
     bytes16 True (ToUint16 (real numOfChannels)) @ bytes32 True (ToUint32 rate) @
     bytes32 True (ToUint32 (rate * real numOfChannels * 2)) @
     bytes16 True (ToUint16 (real (numOfChannels * 2))) @ bytes16 True (ToUint16 16) @
     ascii ''data'' @ bytes32 True (ToUint32 (real len))"

definition sample_bytes :: "real list \<Rightarrow> nat \<Rightarrow> byte list" where
  "sample_bytes ch i =
     bytes16 True
       (case Float32Array_get ch i of
          None \<Rightarrow> ToInt16 0
        | Some x \<Rightarrow> ToInt16 (scale_sample (clamp_sample x)))"

definition frame_bytes :: "real list list \<Rightarrow> nat \<Rightarrow> byte list" where
  "frame_bytes chs i = concat (map (\<lambda>ch. sample_bytes ch i) chs)"

definition wav_data :: "AudioBuffer \<Rightarrow> byte list" where
  "wav_data buffer = concat (map (frame_bytes (channelData buffer)) [0..<length_buf buffer])"

text \<open>
  The quantisation in the words of the specification: the clamped sample times 32768
  when negative and times 32767 otherwise, rounded to the nearest integer.
\<close>

definition spec_quantize :: "real \<Rightarrow> int" where
  "spec_quantize x =
     (let sample = clamp_sample x
      in if sample < 0 then round (sample * 32768) else round (sample * 32767))"

text \<open>The quantisation of the code: the same product with its fraction dropped.\<close>

definition quantize :: "real \<Rightarrow> int" where
  "quantize x = IntegerPart (scale_sample (clamp_sample x))"

text \<open>A buffer with every sample clamped, and a mono buffer of given samples.\<close>

definition clamped :: "AudioBuffer \<Rightarrow> AudioBuffer" where
  "clamped buffer = buffer\<lparr>channelData := map (map clamp_sample) (channelData buffer)\<rparr>"

definition mono :: "real \<Rightarrow> real list \<Rightarrow> AudioBuffer" where
  "mono rate samples = \<lparr>length_buf = length samples, sampleRate = rate, channelData = [samples]\<rparr>"

definition encoded_samples :: "AudioBuffer \<Rightarrow> js_error + int list" where
  "encoded_samples buffer =
     (case bufferToWav buffer of Inl e \<Rightarrow> Inl e | Inr bytes \<Rightarrow> Inr (pcm16 (drop 44 bytes)))"

section \<open>The phases of a recording cycle\<close>

text \<open>
  A recording cycle passes through four phases between two idle ones: a start awaits the
  microphone, one recorder records, its \<^verbatim>\<open>stop\<close> event is pending, its pipeline runs. The
  states of all recorders are either all inactive, or all inactive but for the one that
  \<open>mediaRecorderRef\<close> names.
\<close>

definition recorder_states :: "World \<Rightarrow> RecordingState list" where
  "recorder_states w = map state (recorders (component w))"

definition all_inactive :: "World \<Rightarrow> bool" where
  "all_inactive w = (recorder_states w = replicate (length (recorders (component w))) inactive)"

definition idle :: "World \<Rightarrow> bool" where
  "idle w =
     (\<not> isRecording (voiceState (component w)) \<and> \<not> isTranscribing (component w) \<and>
      pendingStarts w = 0 \<and> pendingStops w = [] \<and> pipelines w = [] \<and> all_inactive w)"

definition starting :: "World \<Rightarrow> bool" where
  "starting w =
     (isRecording (voiceState (component w)) \<and> \<not> isTranscribing (component w) \<and>
      pendingStarts w = 1 \<and> pendingStops w = [] \<and> pipelines w = [] \<and> all_inactive w)"

definition capturing :: "World \<Rightarrow> bool" where
  "capturing w =
     (isRecording (voiceState (component w)) \<and> \<not> isTranscribing (component w) \<and>
      pendingStarts w = 0 \<and> pendingStops w = [] \<and> pipelines w = [] \<and>
      (\<exists>r<length (recorders (component w)).
         mediaRecorderRef (component w) = Some r \<and>
         recorder_states w =
           (replicate (length (recorders (component w))) inactive)[r := recording]))"

definition stopping :: "World \<Rightarrow> bool" where
  "stopping w =
     (isRecording (voiceState (component w)) \<and> \<not> isTranscribing (component w) \<and>
      pendingStarts w = 0 \<and> pipelines w = [] \<and> all_inactive w \<and>
      length (pendingStops w) = 1 \<and>
      list_all (\<lambda>r. r < length (recorders (component w))) (pendingStops w))"

definition transcribing :: "World \<Rightarrow> bool" where
  "transcribing w =
     (\<not> isRecording (voiceState (component w)) \<and> isTranscribing (component w) \<and>
      pendingStarts w = 0 \<and> pendingStops w = [] \<and> all_inactive w \<and>
      length (pipelines w) = 1 \<and>
      list_all (\<lambda>p. fst p < length (recorders (component w))) (pipelines w))"

definition inv :: "World \<Rightarrow> bool" where
  "inv w =
     (list_all (\<lambda>d. 0 < length d) (audioChunksRef (component w)) \<and>
      (idle w \<or> starting w \<or> capturing w \<or> stopping w \<or> transcribing w))"



section \<open>Example platforms and states\<close>

text \<open>
  \<open>safari\<close> decodes at its own rate of 44100 Hz, whatever rate the context was asked for
  (\<^verbatim>\<open>webkitAudioContext\<close> takes no options), and has no network. The servers of \<open>server_ok\<close>
  and \<open>server_down\<close> answer 200 with a transcript and 500. \<open>no_decoder\<close> cannot decode the
  recorded blob. \<open>tiny\<close> decodes two mono frames at 16000 Hz and has a server that answers.
  \<open>chromium\<close> decodes at the rate the context was asked for: a clip of 1001 frames at
  16000 Hz. The server of \<open>no_transcript\<close> answers 200 with a body that has no
  \<^verbatim>\<open>transcript\<close>.
\<close>

definition safari :: Platform where
  "safari =
     \<lparr>readAsArrayBuffer = Inr,
      decodeAudioData = (\<lambda>rate bytes.
         Inr \<lparr>length_buf = 44101, sampleRate = 44100, channelData = [replicate 44101 0]\<rparr>),
      supportsOffline = (\<lambda>channels rate. True),
      startRendering = (\<lambda>ctx source. Inr (\<lambda>c i. 0)),
      fetch = (\<lambda>req. Inl NetworkError)\<rparr>"

definition server_ok :: Platform where
  "server_ok = safari\<lparr>fetch := (\<lambda>req. Inr \<lparr>status = 200, json = Inr (Obj [(''transcript'', Str ''namaste'')])\<rparr>)\<rparr>"

definition server_down :: Platform where
  "server_down = safari\<lparr>fetch := (\<lambda>req. Inr \<lparr>status = 500, json = Inl SyntaxError\<rparr>)\<rparr>"



definition chromium :: Platform where
  "chromium =
     \<lparr>readAsArrayBuffer = Inr,
      decodeAudioData = (\<lambda>rate bytes.
         Inr \<lparr>length_buf = 1001, sampleRate = rate, channelData = [replicate 1001 0]\<rparr>),
      supportsOffline = (\<lambda>channels rate. True),
      startRendering = (\<lambda>ctx source. Inr (\<lambda>c i. 0)),
      fetch = (\<lambda>req. Inl NetworkError)\<rparr>"


text \<open>
  The component after a granted start and one chunk of three bytes, the same with a draft
  typed in the compose field, and a world whose pipeline for recorder 0 is about to fail.
\<close>

definition capturing_example :: ChatInterface where
  "capturing_example = ondataavailable (startRecording initial (Inr ())) [1, 2, 3]"



section \<open>Properties of the WAV encoder\<close>

subsection \<open>Integer conversions\<close>

lemma IntegerPart_of_nat [simp]: "IntegerPart (real n) = int n"
  by (simp add: IntegerPart_def)

lemma IntegerPart_numeral [simp]: "IntegerPart (numeral k) = numeral k"
  by (simp add: IntegerPart_def)

lemma IntegerPart_0 [simp]: "IntegerPart 0 = 0"
  by (simp add: IntegerPart_def)

lemma IntegerPart_1 [simp]: "IntegerPart 1 = 1"
  by (simp add: IntegerPart_def)

lemma IntegerPart_of_int [simp]: "IntegerPart (of_int k) = k"
  by (simp add: IntegerPart_def)

lemma IntegerPart_bounds:
  assumes "of_int lo \<le> x" "x \<le> of_int hi" "lo \<le> 0" "0 \<le> hi"
  shows "lo \<le> IntegerPart x \<and> IntegerPart x \<le> hi"
proof (cases "x < 0")
  case True
  then have ip: "IntegerPart x = \<lceil>x\<rceil>" by (simp add: IntegerPart_def)
  have a: "\<lceil>x\<rceil> \<le> 0" using True by (simp add: ceiling_le_iff)
  have b: "lo \<le> \<lceil>x\<rceil>" using assms(1) by (auto simp: le_ceiling_iff)
  show ?thesis unfolding ip using a b assms(4) by linarith
next
  case False
  then have ip: "IntegerPart x = \<lfloor>x\<rfloor>" by (simp add: IntegerPart_def)
  have a: "0 \<le> \<lfloor>x\<rfloor>" using False by simp
  have b: "\<lfloor>x\<rfloor> \<le> hi" using assms(2) by (auto simp: floor_le_iff)
  show ?thesis unfolding ip using a b assms(3) by linarith
qed

lemma split_bytes2:
  fixes n :: nat
  assumes "n < 65536"
  shows "n mod 256 + 256 * (n div 256 mod 256) = n"
proof -
  have "n div 256 < 256" using assms by simp
  then have "n div 256 mod 256 = n div 256" by simp
  then show ?thesis by simp
qed

lemma split_bytes4:
  fixes n :: nat
  assumes "n < 4294967296"
  shows "n mod 256 + 256 * (n div 256 mod 256) + 65536 * (n div 65536 mod 256) +
    16777216 * (n div 16777216 mod 256) = n"
proof -
  define a where "a = n div 256"
  define b where "b = a div 256"
  define c where "c = b div 256"
  have b: "n div 65536 = b" and c: "n div 16777216 = c"
    by (simp_all add: a_def b_def c_def div_mult2_eq)
  have "c < 256" using assms unfolding c [symmetric] by simp
  then have c': "c mod 256 = c" by simp
  have n: "n = n mod 256 + 256 * a" by (simp add: a_def)
  have a: "a = a mod 256 + 256 * b" by (simp add: b_def)
  have b': "b = b mod 256 + 256 * c" by (simp add: c_def)
  show ?thesis
    unfolding b c c' a_def [symmetric] using n a b' by linarith
qed

lemma ToUint32_real [simp]: "ToUint32 (real n) = of_nat n"
  by (simp add: ToUint32_def)

lemma ToUint16_real [simp]: "ToUint16 (real n) = of_nat n"
  by (simp add: ToUint16_def)

lemma ToUint32_numeral [simp]: "ToUint32 (numeral k) = numeral k"
  by (simp add: ToUint32_def)

lemma ToUint16_numeral [simp]: "ToUint16 (numeral k) = numeral k"
  by (simp add: ToUint16_def)

lemma ToUint16_1 [simp]: "ToUint16 1 = 1"
  by (simp add: ToUint16_def)

subsection \<open>Bytes\<close>

lemma length_bytes16 [simp]: "length (bytes16 e w) = 2"
  by (simp add: bytes16_def Let_def)

lemma length_bytes32 [simp]: "length (bytes32 e w) = 4"
  by (simp add: bytes32_def Let_def)

lemma le_value_bytes16: "le_value (bytes16 True w) = unat w"
proof -
  have "unat (ucast w :: byte) = unat w mod 256"
    by (simp add: unsigned_ucast_eq take_bit_eq_mod)
  moreover have "unat (ucast (drop_bit 8 w) :: byte) = unat w div 256 mod 256"
    by (simp only: unsigned_ucast_eq unat_drop_bit_eq) (simp add: take_bit_eq_mod drop_bit_eq_div)
  moreover have "unat w < 65536"
    using unsigned_less [of w, where ?'a = nat] by simp
  ultimately show ?thesis
    using split_bytes2 [of "unat w"] by (simp only: bytes16_def Let_def if_True le_value.simps) simp
qed

lemma le_value_bytes32: "le_value (bytes32 True w) = unat w"
proof -
  have "unat (ucast w :: byte) = unat w mod 256"
    by (simp add: unsigned_ucast_eq take_bit_eq_mod)
  moreover have "unat (ucast (drop_bit 8 w) :: byte) = unat w div 256 mod 256"
    by (simp only: unsigned_ucast_eq unat_drop_bit_eq) (simp add: take_bit_eq_mod drop_bit_eq_div)
  moreover have "unat (ucast (drop_bit 16 w) :: byte) = unat w div 65536 mod 256"
    by (simp only: unsigned_ucast_eq unat_drop_bit_eq) (simp add: take_bit_eq_mod drop_bit_eq_div)
  moreover have "unat (ucast (drop_bit 24 w) :: byte) = unat w div 16777216 mod 256"
    by (simp only: unsigned_ucast_eq unat_drop_bit_eq) (simp add: take_bit_eq_mod drop_bit_eq_div)
  moreover have "unat w < 4294967296"
    using unsigned_less [of w, where ?'a = nat] by simp
  ultimately show ?thesis
    using split_bytes4 [of "unat w"] by (simp only: bytes32_def Let_def if_True le_value.simps) simp
qed

lemma le_value_u32le: "n < 2 ^ 32 \<Longrightarrow> le_value (u32le n) = n"
  by (simp add: u32le_def le_value_bytes32 unat_of_nat)

lemma le_value_u16le: "n < 2 ^ 16 \<Longrightarrow> le_value (u16le n) = n"
  by (simp add: u16le_def le_value_bytes16 unat_of_nat)

lemma s16_value_bytes16: "s16_value (bytes16 True w) = sint w"
  by (simp add: s16_value_def le_value_bytes16)

lemma s16_value_s16le: "- 32768 \<le> k \<Longrightarrow> k \<le> 32767 \<Longrightarrow> s16_value (s16le k) = k"
  by (simp add: s16le_def s16_value_bytes16 signed_of_int signed_take_bit_int_eq_self)

subsection \<open>Writes into the view\<close>

lemma length_store [simp]: "length (store dv off bs) = length dv"
  by (induction bs arbitrary: dv off) auto

lemma store_append_data: "store dv off (as @ bs) = store (store dv off as) (off + length as) bs"
  by (induction as arbitrary: dv off) auto

lemma store_at_end:
  "length bs \<le> length z \<Longrightarrow> store (h @ z) (length h) bs = h @ bs @ drop (length bs) z"
proof (induction bs arbitrary: h z)
  case Nil
  then show ?case by simp
next
  case (Cons b bs)
  then obtain y ys where z: "z = y # ys" by (cases z) auto
  have "store ((h @ z)[length h := b]) (Suc (length h)) bs =
      store ((h @ [b]) @ ys) (length (h @ [b])) bs"
    by (simp add: z list_update_append)
  also have "\<dots> = (h @ [b]) @ bs @ drop (length bs) ys"
    using Cons.prems z by (intro Cons.IH) simp
  finally show ?case by (simp add: z)
qed

lemma seqE_append:
  "seqE (fs @ gs) x = (case seqE fs x of Inl e \<Rightarrow> Inl e | Inr y \<Rightarrow> seqE gs y)"
  by (induction fs arbitrary: x) (auto split: sum.splits)

lemma mapE_Inr: "(\<And>x. x \<in> set xs \<Longrightarrow> f x = Inr (g x)) \<Longrightarrow> mapE f xs = Inr (map g xs)"
  by (induction xs) auto

lemma length_concat_const:
  "(\<And>x. x \<in> set xs \<Longrightarrow> length (f x) = k) \<Longrightarrow> length (concat (map f xs)) = length xs * k"
  by (induction xs) auto

lemma concat_block:
  "(\<And>x. x \<in> set xs \<Longrightarrow> length (f x) = k) \<Longrightarrow> i < length xs \<Longrightarrow>
   take k (drop (i * k) (concat (map f xs))) = f (xs ! i)"
proof (induction xs arbitrary: i)
  case Nil
  then show ?case by simp
next
  case (Cons x xs)
  show ?case
  proof (cases i)
    case 0
    then show ?thesis using Cons.prems(1) [of x] by simp
  next
    case (Suc i')
    have "drop (i * k) (concat (map f (x # xs))) = drop (i' * k) (concat (map f xs))"
      using Cons.prems(1) [of x] by (simp add: Suc)
    then show ?thesis using Cons.IH [of i'] Cons.prems by (simp add: Suc)
  qed
qed

subsection \<open>The header\<close>

lemma replicate_44:
  "replicate (44 + n) x =
     [x, x, x, x, x, x, x, x, x, x, x, x, x, x, x, x, x, x, x, x, x, x,
      x, x, x, x, x, x, x, x, x, x, x, x, x, x, x, x, x, x, x, x, x, x] @ replicate n x"
  by (simp add: replicate_add numeral_eq_Suc)

lemma length_header_bytes [simp]: "length (header_bytes C len rate) = 44"
  by (simp add: header_bytes_def ascii_def)

lemma write_header_eval:
  "write_header C len rate (replicate (44 + len) 0) = Inr (header_bytes C len rate @ replicate len 0)"
  by (simp add: replicate_44 write_header_def writeString_def setUint8_def setUint16_def
      setUint32_def setBytes_def bytes16_def bytes32_def ToUint8_def
      charCodeAt_def upt_rec header_bytes_def ascii_def)

lemma header_bytes_integral:
  "header_bytes C (N * C * 2) (real R) =
     ascii ''RIFF'' @ u32le (36 + N * C * 2) @ ascii ''WAVE'' @ ascii ''fmt '' @ u32le 16 @
     u16le 1 @ u16le C @ u32le R @ u32le (R * C * 2) @ u16le (C * 2) @ u16le 16 @
     ascii ''data'' @ u32le (N * C * 2)"
proof -
  have "ToUint32 (36 + real N * real C * 2) = of_nat (36 + N * C * 2)"
    "ToUint32 (real R * real C * 2) = of_nat (R * C * 2)"
    "ToUint16 (real C * 2) = of_nat (C * 2)"
    "ToUint32 (real N * real C * 2) = of_nat (N * C * 2)"
    using ToUint32_real [of "36 + N * C * 2"] ToUint32_real [of "R * C * 2"]
      ToUint16_real [of "C * 2"] ToUint32_real [of "N * C * 2"]
    by simp_all
  then show ?thesis
    by (simp add: header_bytes_def u16le_def u32le_def)
qed

subsection \<open>The data loops\<close>

lemma length_sample_bytes [simp]: "length (sample_bytes ch i) = 2"
  by (simp add: sample_bytes_def)

lemma length_frame_bytes [simp]: "length (frame_bytes chs i) = 2 * length chs"
  by (simp add: frame_bytes_def length_concat_const)

lemma length_wav_data [simp]:
  "length (wav_data buffer) = length_buf buffer * numberOfChannels buffer * 2"
  by (simp add: wav_data_def length_concat_const numberOfChannels_def)

lemma write_sample_eq:
  "off + 2 \<le> length dv \<Longrightarrow>
   write_sample chs i j (off, dv) = Inr (off + 2, store dv off (sample_bytes (chs ! j) i))"
  by (simp add: write_sample_def setInt16_def setBytes_def sample_bytes_def split: option.splits)

lemma inner_loop:
  "off + 2 * n \<le> length dv \<Longrightarrow>
   seqE (map (write_sample chs i) [0..<n]) (off, dv) =
     Inr (off + 2 * n, store dv off (concat (map (\<lambda>j. sample_bytes (chs ! j) i) [0..<n])))"
proof (induction n)
  case 0
  then show ?case by simp
next
  case (Suc n)
  have len: "length (concat (map (\<lambda>j. sample_bytes (chs ! j) i) [0..<n])) = 2 * n"
    by (simp add: length_concat_const)
  from Suc show ?case
    by (simp add: seqE_append write_sample_eq store_append_data len)
qed

lemma frame_bytes_nth:
  "concat (map (\<lambda>j. sample_bytes (chs ! j) i) [0..<length chs]) = frame_bytes chs i"
proof -
  have "map (\<lambda>j. sample_bytes (chs ! j) i) [0..<length chs] =
      map (\<lambda>ch. sample_bytes ch i) (map ((!) chs) [0..<length chs])"
    by simp
  then show ?thesis unfolding frame_bytes_def map_nth by simp
qed

lemma outer_loop:
  "off + 2 * length chs * n \<le> length dv \<Longrightarrow>
   seqE (map (\<lambda>i. seqE (map (write_sample chs i) [0..<length chs])) [0..<n]) (off, dv) =
     Inr (off + 2 * length chs * n, store dv off (concat (map (frame_bytes chs) [0..<n])))"
proof (induction n)
  case 0
  then show ?case by simp
next
  case (Suc n)
  have len: "length (concat (map (frame_bytes chs) [0..<n])) = 2 * length chs * n"
    by (simp add: length_concat_const)
  from Suc.prems have "off + 2 * length chs * n + 2 * length chs \<le> length dv" by simp
  then have step: "seqE (map (write_sample chs n) [0..<length chs])
      (off + 2 * length chs * n, store dv off (concat (map (frame_bytes chs) [0..<n]))) =
     Inr (off + 2 * length chs * n + 2 * length chs,
       store (store dv off (concat (map (frame_bytes chs) [0..<n])))
         (off + 2 * length chs * n) (frame_bytes chs n))"
    by (simp add: inner_loop frame_bytes_nth)
  from Suc show ?case
    by (simp add: seqE_append step store_append_data len)
qed

lemma channels_eq:
  "mapE (getChannelData buffer) [0..<numberOfChannels buffer] = Inr (channelData buffer)"
proof -
  have "mapE (getChannelData buffer) [0..<numberOfChannels buffer] =
      Inr (map ((!) (channelData buffer)) [0..<numberOfChannels buffer])"
    by (rule mapE_Inr) (simp add: getChannelData_def)
  then show ?thesis by (simp add: numberOfChannels_def map_nth)
qed

text \<open>The encoder never throws: its result is the header followed by the data.\<close>

lemma bufferToWav_eq:
  "bufferToWav buffer =
     Inr (header_bytes (numberOfChannels buffer) (length_buf buffer * numberOfChannels buffer * 2)
            (sampleRate buffer) @ wav_data buffer)"
proof -
  let ?C = "numberOfChannels buffer" and ?N = "length_buf buffer"
  let ?len = "?N * ?C * 2"
  let ?h = "header_bytes ?C ?len (sampleRate buffer)"
  have "write_data (channelData buffer) ?N ?C (44, ?h @ replicate ?len 0) =
      Inr (44 + 2 * ?C * ?N, store (?h @ replicate ?len 0) 44 (wav_data buffer))"
    unfolding write_data_def numberOfChannels_def wav_data_def
    by (rule outer_loop) simp
  moreover have "store (?h @ replicate ?len 0) 44 (wav_data buffer) = ?h @ wav_data buffer"
    using store_at_end [of "wav_data buffer" "replicate ?len 0" ?h] by simp
  ultimately show ?thesis
    by (simp add: bufferToWav_def Let_def write_header_eval channels_eq)
qed

lemma wav_sample_at:
  assumes "i < length_buf buffer" and "j < numberOfChannels buffer"
  shows "take 2 (drop (2 * (i * numberOfChannels buffer + j)) (wav_data buffer)) =
     sample_bytes (channelData buffer ! j) i"
proof -
  let ?C = "numberOfChannels buffer"
  let ?chs = "channelData buffer"
  have frame: "take (2 * ?C) (drop (i * (2 * ?C)) (wav_data buffer)) = frame_bytes ?chs i"
    unfolding wav_data_def
    using concat_block [of "[0..<length_buf buffer]" "frame_bytes ?chs" "2 * ?C" i] assms(1)
    by (simp add: numberOfChannels_def)
  have sample: "take 2 (drop (j * 2) (frame_bytes ?chs i)) = sample_bytes (?chs ! j) i"
    unfolding frame_bytes_def
    using concat_block [of ?chs "\<lambda>ch. sample_bytes ch i" 2 j] assms(2)
    by (simp add: numberOfChannels_def)
  have "take 2 (drop (2 * (i * ?C + j)) (wav_data buffer)) =
      take 2 (drop (j * 2) (drop (i * (2 * ?C)) (wav_data buffer)))"
    by (simp add: algebra_simps)
  also have "\<dots> = take 2 (drop (j * 2) (take (2 * ?C) (drop (i * (2 * ?C)) (wav_data buffer))))"
    using assms(2) by (simp add: drop_take min_def)
  finally show ?thesis by (simp only: frame sample)
qed

subsection \<open>Quantisation\<close>

lemma clamp_sample_range: "- 1 \<le> clamp_sample x \<and> clamp_sample x \<le> 1"
  by (simp add: clamp_sample_def)

lemma clamp_sample_idem [simp]: "clamp_sample (clamp_sample x) = clamp_sample x"
  by (simp add: clamp_sample_def)

lemma quantize_range: "- 32768 \<le> quantize x \<and> quantize x \<le> 32767"
proof -
  let ?s = "clamp_sample x"
  have "of_int (- 32768) \<le> scale_sample ?s" "scale_sample ?s \<le> of_int 32767"
    using clamp_sample_range [of x] by (auto simp: scale_sample_def)
  then show ?thesis unfolding quantize_def by (rule IntegerPart_bounds) simp_all
qed

lemma sample_bytes_quantize:
  "i < length ch \<Longrightarrow> sample_bytes ch i = s16le (quantize (ch ! i))"
  by (simp add: sample_bytes_def Float32Array_get_def s16le_def quantize_def ToInt16_def)

lemma s16_value_quantize: "s16_value (s16le (quantize x)) = quantize x"
  using quantize_range [of x] by (simp add: s16_value_s16le)

lemma IntegerPart_neg_numeral [simp]: "IntegerPart (- numeral k) = - numeral k"
  by (simp add: IntegerPart_def)

lemma pcm16_s16le: "pcm16 (s16le k) = [s16_value (s16le k)]"
  by (simp add: s16le_def bytes16_def)

lemma encoded_samples_mono: "encoded_samples (mono rate [x]) = Inr [quantize x]"
proof -
  have "wav_data (mono rate [x]) = s16le (quantize x)"
    by (simp add: wav_data_def mono_def frame_bytes_def sample_bytes_quantize)
  then show ?thesis
    by (simp add: encoded_samples_def bufferToWav_eq pcm16_s16le s16_value_quantize)
qed

lemma sample_bytes_clamped: "sample_bytes (map clamp_sample ch) i = sample_bytes ch i"
  by (simp add: sample_bytes_def Float32Array_get_def)

lemma bufferToWav_clamped: "bufferToWav (clamped buffer) = bufferToWav buffer"
proof -
  have "frame_bytes (map (map clamp_sample) chs) = frame_bytes chs" for chs
    by (rule ext) (simp add: frame_bytes_def sample_bytes_clamped comp_def)
  then have "wav_data (clamped buffer) = wav_data buffer"
    by (simp add: wav_data_def clamped_def)
  then show ?thesis
    by (simp add: bufferToWav_eq) (simp add: clamped_def numberOfChannels_def)
qed

lemma quantize_values:
  "quantize (3 / 2) = 32767" "quantize 1 = 32767" "quantize (- 2) = - 32768"
  "quantize (- 1) = - 32768" "quantize 0 = 0"
  by (simp_all add: quantize_def clamp_sample_def scale_sample_def)

lemma clamped_mono: "clamped (mono rate xs) = mono rate (map clamp_sample xs)"
  by (simp add: clamped_def mono_def)

subsection \<open>Length and header of the encoded file\<close>

lemma length_ascii [simp]: "length (ascii s) = length s"
  by (simp add: ascii_def)

lemma length_u16le [simp]: "length (u16le n) = 2"
  by (simp add: u16le_def)

lemma length_u32le [simp]: "length (u32le n) = 4"
  by (simp add: u32le_def)

lemma le_value_u32le_mod: "le_value (u32le n) = n mod 2 ^ 32"
  by (simp add: u32le_def le_value_bytes32 unat_of_nat)

lemma le_value_u16le_mod: "le_value (u16le n) = n mod 2 ^ 16"
  by (simp add: u16le_def le_value_bytes16 unat_of_nat)

lemma take_drop_prefix:
  "take m bytes = h \<Longrightarrow> k + n \<le> m \<Longrightarrow> take n (drop k bytes) = take n (drop k h)"
  by (auto simp: drop_take)

lemma header_fields:
  assumes "take 44 bytes =
       ascii ''RIFF'' @ u32le a @ ascii ''WAVE'' @ ascii ''fmt '' @ u32le b @
       u16le c @ u16le d @ u32le e @ u32le f @ u16le g @ u16le h @
       ascii ''data'' @ u32le i"
  shows "le_value (take 4 (drop 4 bytes)) = a mod 2 ^ 32"
    "le_value (take 4 (drop 16 bytes)) = b mod 2 ^ 32"
    "le_value (take 2 (drop 20 bytes)) = c mod 2 ^ 16"
    "le_value (take 2 (drop 22 bytes)) = d mod 2 ^ 16"
    "le_value (take 4 (drop 24 bytes)) = e mod 2 ^ 32"
    "le_value (take 4 (drop 28 bytes)) = f mod 2 ^ 32"
    "le_value (take 2 (drop 32 bytes)) = g mod 2 ^ 16"
    "le_value (take 2 (drop 34 bytes)) = h mod 2 ^ 16"
    "le_value (take 4 (drop 40 bytes)) = i mod 2 ^ 32"
proof -
  note p = take_drop_prefix [OF assms]
  show "le_value (take 4 (drop 4 bytes)) = a mod 2 ^ 32"
    by (subst p) (simp_all add: le_value_u32le_mod)
  show "le_value (take 4 (drop 16 bytes)) = b mod 2 ^ 32"
    by (subst p) (simp_all add: le_value_u32le_mod)
  show "le_value (take 2 (drop 20 bytes)) = c mod 2 ^ 16"
    by (subst p) (simp_all add: le_value_u16le_mod)
  show "le_value (take 2 (drop 22 bytes)) = d mod 2 ^ 16"
    by (subst p) (simp_all add: le_value_u16le_mod)
  show "le_value (take 4 (drop 24 bytes)) = e mod 2 ^ 32"
    by (subst p) (simp_all add: le_value_u32le_mod)
  show "le_value (take 4 (drop 28 bytes)) = f mod 2 ^ 32"
    by (subst p) (simp_all add: le_value_u32le_mod)
  show "le_value (take 2 (drop 32 bytes)) = g mod 2 ^ 16"
    by (subst p) (simp_all add: le_value_u16le_mod)
  show "le_value (take 2 (drop 34 bytes)) = h mod 2 ^ 16"
    by (subst p) (simp_all add: le_value_u16le_mod)
  show "le_value (take 4 (drop 40 bytes)) = i mod 2 ^ 32"
    by (subst p) (simp_all add: le_value_u32le_mod)
qed

text \<open>
  Claim C1. For a buffer with \<open>C\<close> channels of \<open>N\<close> samples each and the sample rate \<open>R\<close>,
  \<open>bufferToWav\<close> returns (it never throws) a byte buffer of \<open>44 + N * C * 2\<close> bytes whose
  first 44 bytes are, in this order: ``RIFF'', \<open>36 + N * C * 2\<close> as a little-endian 32-bit
  value, ``WAVE'', ``fmt '', 16 (32 bits), 1 (16 bits), \<open>C\<close> (16 bits), \<open>R\<close> (32 bits),
  \<open>R * C * 2\<close> (32 bits), \<open>C * 2\<close> (16 bits), 16 (16 bits), ``data'' and \<open>N * C * 2\<close>
  (32 bits). Read back as a number, a field of \<open>w\<close> bits is its value modulo \<open>2 ^ w\<close>: the
  value itself whenever that is below \<open>2 ^ w\<close>, as it is for every file below 4 GiB.
\<close>

theorem bufferToWav_length_and_header:
  assumes "wf_AudioBuffer buffer"
    and "numberOfChannels buffer = C"
    and "length_buf buffer = N"
    and "sampleRate buffer = real R"
  shows "\<exists>bytes. bufferToWav buffer = Inr bytes \<and> length bytes = 44 + N * C * 2 \<and>
     take 44 bytes =
       ascii ''RIFF'' @ u32le (36 + N * C * 2) @ ascii ''WAVE'' @ ascii ''fmt '' @ u32le 16 @
       u16le 1 @ u16le C @ u32le R @ u32le (R * C * 2) @ u16le (C * 2) @ u16le 16 @
       ascii ''data'' @ u32le (N * C * 2) \<and>
     le_value (take 4 (drop 4 bytes)) = (36 + N * C * 2) mod 2 ^ 32 \<and>
     le_value (take 4 (drop 16 bytes)) = 16 \<and>
     le_value (take 2 (drop 20 bytes)) = 1 \<and>
     le_value (take 2 (drop 22 bytes)) = C mod 2 ^ 16 \<and>
     le_value (take 4 (drop 24 bytes)) = R mod 2 ^ 32 \<and>
     le_value (take 4 (drop 28 bytes)) = (R * C * 2) mod 2 ^ 32 \<and>
     le_value (take 2 (drop 32 bytes)) = (C * 2) mod 2 ^ 16 \<and>
     le_value (take 2 (drop 34 bytes)) = 16 \<and>
     le_value (take 4 (drop 40 bytes)) = (N * C * 2) mod 2 ^ 32"
proof -
  let ?h = "header_bytes C (N * C * 2) (real R)"
  let ?bytes = "?h @ wav_data buffer"
  have eq: "bufferToWav buffer = Inr ?bytes"
    using bufferToWav_eq [of buffer] assms by simp
  have len: "length ?bytes = 44 + N * C * 2"
    using assms by simp
  have hd: "take 44 ?bytes =
       ascii ''RIFF'' @ u32le (36 + N * C * 2) @ ascii ''WAVE'' @ ascii ''fmt '' @ u32le 16 @
       u16le 1 @ u16le C @ u32le R @ u32le (R * C * 2) @ u16le (C * 2) @ u16le 16 @
       ascii ''data'' @ u32le (N * C * 2)"
    by (simp add: header_bytes_integral)
  show ?thesis
    unfolding eq using len hd header_fields [OF hd] by simp
qed

theorem bufferToWav_length_and_header_witness:
  "wf_AudioBuffer \<lparr>length_buf = 2, sampleRate = 16000, channelData = [[0, 1 / 2], [- 1, 1 / 4]]\<rparr> \<and>
   numberOfChannels \<lparr>length_buf = 2, sampleRate = 16000, channelData = [[0, 1 / 2], [- 1, 1 / 4]]\<rparr> = 2 \<and>
   (\<exists>bytes. bufferToWav \<lparr>length_buf = 2, sampleRate = 16000, channelData = [[0, 1 / 2], [- 1, 1 / 4]]\<rparr> = Inr bytes \<and>
      length bytes = 52 \<and>
      take 44 bytes =
        [82, 73, 70, 70, 44, 0, 0, 0, 87, 65, 86, 69, 102, 109, 116, 32, 16, 0, 0, 0, 1, 0, 2, 0,
         128, 62, 0, 0, 0, 250, 0, 0, 4, 0, 16, 0, 100, 97, 116, 97, 8, 0, 0, 0] \<and>
      le_value (take 4 (drop 4 bytes)) = 44 \<and>
      le_value (take 2 (drop 22 bytes)) = 2 \<and>
      le_value (take 4 (drop 24 bytes)) = 16000 \<and>
      le_value (take 4 (drop 28 bytes)) = 64000 \<and>
      le_value (take 2 (drop 32 bytes)) = 4 \<and>
      le_value (take 4 (drop 40 bytes)) = 8)"
proof -
  let ?b = "\<lparr>length_buf = 2, sampleRate = 16000, channelData = [[0, 1 / 2], [- 1, 1 / 4]]\<rparr>"
  have wf: "wf_AudioBuffer ?b" and C: "numberOfChannels ?b = 2"
    by (simp_all add: wf_AudioBuffer_def numberOfChannels_def)
  have "length_buf ?b = 2" and "sampleRate ?b = real 16000"
    by simp_all
  from bufferToWav_length_and_header [OF wf C this]
  obtain bytes where "bufferToWav ?b = Inr bytes" "length bytes = 44 + 2 * 2 * 2"
    "take 44 bytes =
       ascii ''RIFF'' @ u32le (36 + 2 * 2 * 2) @ ascii ''WAVE'' @ ascii ''fmt '' @ u32le 16 @
       u16le 1 @ u16le 2 @ u32le 16000 @ u32le (16000 * 2 * 2) @ u16le (2 * 2) @ u16le 16 @
       ascii ''data'' @ u32le (2 * 2 * 2)"
    "le_value (take 4 (drop 4 bytes)) = (36 + 2 * 2 * 2) mod 2 ^ 32"
    "le_value (take 2 (drop 22 bytes)) = 2 mod 2 ^ 16"
    "le_value (take 4 (drop 24 bytes)) = 16000 mod 2 ^ 32"
    "le_value (take 4 (drop 28 bytes)) = (16000 * 2 * 2) mod 2 ^ 32"
    "le_value (take 2 (drop 32 bytes)) = (2 * 2) mod 2 ^ 16"
    "le_value (take 4 (drop 40 bytes)) = (2 * 2 * 2) mod 2 ^ 32"
    by blast
  then show ?thesis
    using wf C by (simp add: ascii_def u32le_def u16le_def bytes16_def bytes32_def)
qed

subsection \<open>The samples of the encoded file\<close>

text \<open>
  Claim C2, as the code has it. For every frame \<open>i < N\<close> and channel \<open>j < C\<close> the encoder
  clamps the sample \<open>channels[j][i]\<close> to \<open>[-1, 1]\<close>, multiplies it by 32768 when it is
  negative and by 32767 otherwise, and drops the fraction of the product (\<open>quantize\<close>: the
  integer conversion of \<^verbatim>\<open>setInt16\<close> truncates towards zero, it does not round). The
  result is written as a little-endian signed 16-bit value at byte
  \<open>44 + 2 * (i * C + j)\<close>: frame after frame, the channels of one frame side by side.
\<close>

theorem bufferToWav_samples:
  assumes "wf_AudioBuffer buffer"
    and "numberOfChannels buffer = C"
    and "length_buf buffer = N"
  shows "\<exists>bytes. bufferToWav buffer = Inr bytes \<and>
     drop 44 bytes =
       concat (map (\<lambda>i. concat (map (\<lambda>j. s16le (quantize (channelData buffer ! j ! i))) [0..<C]))
         [0..<N]) \<and>
     (\<forall>i<N. \<forall>j<C.
        take 2 (drop (44 + 2 * (i * C + j)) bytes) = s16le (quantize (channelData buffer ! j ! i)) \<and>
        s16_value (take 2 (drop (44 + 2 * (i * C + j)) bytes)) = quantize (channelData buffer ! j ! i))"
proof -
  let ?chs = "channelData buffer"
  let ?h = "header_bytes C (N * C * 2) (sampleRate buffer)"
  have eq: "bufferToWav buffer = Inr (?h @ wav_data buffer)"
    using bufferToWav_eq [of buffer] assms by simp
  have len: "length (?chs ! j) = N" if "j < C" for j
    using assms that by (simp add: wf_AudioBuffer_def numberOfChannels_def list_all_length)
  have sample: "sample_bytes (?chs ! j) i = s16le (quantize (?chs ! j ! i))" if "i < N" "j < C" for i j
    using that len by (simp add: sample_bytes_quantize)
  have frame: "frame_bytes ?chs i = concat (map (\<lambda>j. s16le (quantize (?chs ! j ! i))) [0..<C])"
    if "i < N" for i
  proof -
    have "frame_bytes ?chs i = concat (map (\<lambda>j. sample_bytes (?chs ! j) i) [0..<C])"
      using frame_bytes_nth [of ?chs i] assms(2) by (simp add: numberOfChannels_def)
    also have "map (\<lambda>j. sample_bytes (?chs ! j) i) [0..<C] =
        map (\<lambda>j. s16le (quantize (?chs ! j ! i))) [0..<C]"
      using that by (intro map_cong) (simp_all add: sample)
    finally show ?thesis .
  qed
  have maps: "map (frame_bytes ?chs) [0..<N] =
      map (\<lambda>i. concat (map (\<lambda>j. s16le (quantize (?chs ! j ! i))) [0..<C])) [0..<N]"
    by (rule map_cong) (simp_all add: frame)
  have data: "drop 44 (?h @ wav_data buffer) =
      concat (map (\<lambda>i. concat (map (\<lambda>j. s16le (quantize (?chs ! j ! i))) [0..<C])) [0..<N])"
  proof -
    have "wav_data buffer = concat (map (frame_bytes ?chs) [0..<N])"
      using assms(3) by (simp add: wav_data_def)
    then show ?thesis by (simp only: maps) simp
  qed
  have at: "take 2 (drop (44 + 2 * (i * C + j)) (?h @ wav_data buffer)) =
      s16le (quantize (?chs ! j ! i))" if "i < N" "j < C" for i j
  proof -
    have "drop (44 + 2 * (i * C + j)) (?h @ wav_data buffer) =
        drop (2 * (i * C + j)) (wav_data buffer)"
      by simp
    then show ?thesis
      using wav_sample_at [of i buffer j] that assms by (simp add: sample)
  qed
  show ?thesis
    unfolding eq using data at by (simp add: s16_value_quantize)
qed

theorem bufferToWav_samples_witness:
  "wf_AudioBuffer \<lparr>length_buf = 2, sampleRate = 16000, channelData = [[0, 1 / 2], [- 1, 1 / 4]]\<rparr> \<and>
   (\<exists>bytes. bufferToWav \<lparr>length_buf = 2, sampleRate = 16000, channelData = [[0, 1 / 2], [- 1, 1 / 4]]\<rparr> = Inr bytes \<and>
      drop 44 bytes = [0, 0, 0, 128, 255, 63, 255, 31] \<and>
      pcm16 (drop 44 bytes) = [0, - 32768, 16383, 8191])"
proof -
  let ?b = "\<lparr>length_buf = 2, sampleRate = 16000, channelData = [[0, 1 / 2], [- 1, 1 / 4]]\<rparr>"
  have wf: "wf_AudioBuffer ?b" and C: "numberOfChannels ?b = 2"
    by (simp_all add: wf_AudioBuffer_def numberOfChannels_def)
  have N: "length_buf ?b = 2"
    by simp
  from bufferToWav_samples [OF wf C N]
  obtain bytes where "bufferToWav ?b = Inr bytes"
    "drop 44 bytes =
       concat (map (\<lambda>i. concat (map (\<lambda>j. s16le (quantize (channelData ?b ! j ! i))) [0..<2])) [0..<2])"
    by blast
  then show ?thesis
    using wf
    by (simp add: upt_rec s16le_def bytes16_def quantize_def clamp_sample_def scale_sample_def
        IntegerPart_def s16_value_def)
qed

text \<open>
  With rounding the sample \<open>1/4\<close> would be stored as 8192 (bytes 0 and 32), its product
  with 32767 being 8191.75; the encoder stores 8191 (bytes 255 and 31).
\<close>

theorem quantize_round_counterexample:
  "bufferToWav (mono 16000 [1 / 4]) =
     Inr [82, 73, 70, 70, 38, 0, 0, 0, 87, 65, 86, 69, 102, 109, 116, 32, 16, 0, 0, 0, 1, 0, 1, 0,
          128, 62, 0, 0, 0, 125, 0, 0, 2, 0, 16, 0, 100, 97, 116, 97, 2, 0, 0, 0, 255, 31] \<and>
   encoded_samples (mono 16000 [1 / 4]) = Inr [8191] \<and>
   spec_quantize (1 / 4) = 8192 \<and>
   s16le (spec_quantize (1 / 4)) = [0, 32]"
  by (simp add: encoded_samples_def bufferToWav_eq mono_def numberOfChannels_def header_bytes_def
      wav_data_def frame_bytes_def sample_bytes_def Float32Array_get_def ascii_def bytes16_def
      bytes32_def clamp_sample_def scale_sample_def ToInt16_def IntegerPart_def spec_quantize_def
      s16le_def s16_value_def round_def)

subsection \<open>Clamping\<close>

text \<open>
  Claim C4. Every sample is clamped to \<open>[-1, 1]\<close> before it is quantised, so the 16-bit
  conversion never wraps around: the encoded file of a buffer is that of the buffer with
  its samples clamped, a sample \<open>x\<close> is stored as the number \<open>quantize x\<close>, which lies
  between -32768 and 32767; 1.5 is encoded as 1.0 is (32767), -2.0 as -1.0 is (-32768),
  and 0.0 as 0.
\<close>

theorem clamp_before_quantize:
  "encoded_samples (mono rate [3 / 2]) = Inr [32767] \<and>
   encoded_samples (mono rate [1]) = Inr [32767] \<and>
   bufferToWav (mono rate [3 / 2]) = bufferToWav (mono rate [1]) \<and>
   encoded_samples (mono rate [- 2]) = Inr [- 32768] \<and>
   encoded_samples (mono rate [- 1]) = Inr [- 32768] \<and>
   bufferToWav (mono rate [- 2]) = bufferToWav (mono rate [- 1]) \<and>
   encoded_samples (mono rate [0]) = Inr [0] \<and>
   bufferToWav (clamped buffer) = bufferToWav buffer \<and>
   encoded_samples (mono rate [x]) = Inr [quantize x] \<and>
   quantize x = quantize (clamp_sample x) \<and>
   - 32768 \<le> quantize x \<and> quantize x \<le> 32767"
proof -
  have "bufferToWav (mono rate [3 / 2]) = bufferToWav (mono rate [1])"
    using bufferToWav_clamped [of "mono rate [3 / 2]"]
    by (simp add: clamped_mono clamp_sample_def)
  moreover have "bufferToWav (mono rate [- 2]) = bufferToWav (mono rate [- 1])"
    using bufferToWav_clamped [of "mono rate [- 2]"]
    by (simp add: clamped_mono clamp_sample_def)
  ultimately show ?thesis
    using quantize_range [of x]
    by (simp add: encoded_samples_mono quantize_values bufferToWav_clamped) (simp add: quantize_def)
qed

section \<open>Properties of the resampler\<close>

subsection \<open>Rounding to binary64\<close>

lemma powr_eq_powi: "(2::real) powr of_int k = 2 powi k"
  by (simp add: powr_real_of_int power_int_def power_inverse field_simps)

lemma floor_log2_iff:
  assumes "0 < a"
  shows "\<lfloor>log 2 a\<rfloor> = e \<longleftrightarrow> 2 powi e \<le> a \<and> a < 2 powi (e + 1)"
  using assms floor_log_eq_powr_iff [of a 2 e]
  by (simp flip: powr_eq_powi add: ac_simps)

lemma round_ties_even_ge: "of_int m \<le> z \<Longrightarrow> m \<le> round_ties_even z"
proof -
  assume "of_int m \<le> z"
  then have "m \<le> \<lfloor>z\<rfloor>" by (simp add: le_floor_iff)
  moreover have "\<lfloor>z\<rfloor> \<le> round_ties_even z"
    by (simp add: round_ties_even_def Let_def)
  ultimately show ?thesis by simp
qed

lemma round_ties_even_le: "z \<le> of_int m \<Longrightarrow> round_ties_even z \<le> m"
proof -
  assume a: "z \<le> of_int m"
  show ?thesis
  proof (cases "z = of_int \<lfloor>z\<rfloor>")
    case True
    then have "round_ties_even z = \<lfloor>z\<rfloor>"
      by (simp add: round_ties_even_def Let_def)
    moreover have "\<lfloor>z\<rfloor> \<le> m" using a by (simp add: floor_le_iff)
    ultimately show ?thesis by simp
  next
    case False
    then have "of_int \<lfloor>z\<rfloor> < z"
      by (smt (verit) of_int_floor_le)
    then have "of_int \<lfloor>z\<rfloor> < (of_int m :: real)" using a by linarith
    then have "\<lfloor>z\<rfloor> < m" by simp
    moreover have "round_ties_even z \<le> \<lfloor>z\<rfloor> + 1"
      by (simp add: round_ties_even_def Let_def)
    ultimately show ?thesis by linarith
  qed
qed

text \<open>The rounding of a number whose exponent is known.\<close>

lemma binary64_at:
  assumes "2 powi e \<le> \<bar>x\<bar>" and "\<bar>x\<bar> < 2 powi (e + 1)" and "- 1022 \<le> e"
  shows "binary64 x =
    (let y = of_int (round_ties_even (x * 2 powi (52 - e))) * 2 powi (e - 52)
     in if \<bar>y\<bar> < 2 powi 1024 then Some y else None)"
proof -
  have pos: "0 < \<bar>x\<bar>"
    using assms(1) by (smt (verit) zero_less_power_int)
  then have "\<lfloor>log 2 \<bar>x\<bar>\<rfloor> = e"
    using assms(1,2) by (simp add: floor_log2_iff)
  then show ?thesis
    using pos assms(3) by (simp add: binary64_def Let_def max_def)
qed

lemma binary64_cases:
  assumes "binary64 x = Some p" and "x \<noteq> 0"
  obtains e where "e = max \<lfloor>log 2 \<bar>x\<bar>\<rfloor> (- 1022)"
    and "p = of_int (round_ties_even (x * 2 powi (52 - e))) * 2 powi (e - 52)"
  using assms by (simp add: binary64_def Let_def split: if_splits)

text \<open>
  Every integer below \<open>2 ^ 53\<close> is a binary64 number, so rounding does not carry a number
  across one: the rounded number lies between the floor and the ceiling of the exact one.
\<close>

lemma binary64_between:
  assumes "binary64 x = Some p" and "\<bar>p\<bar> < 2 ^ 53"
  shows "of_int \<lfloor>x\<rfloor> \<le> p \<and> p \<le> of_int \<lceil>x\<rceil>"
proof (cases "x = 0")
  case True
  then show ?thesis using assms(1) by (simp add: binary64_def)
next
  case False
  from assms(1) False obtain e where e: "e = max \<lfloor>log 2 \<bar>x\<bar>\<rfloor> (- 1022)"
    and p: "p = of_int (round_ties_even (x * 2 powi (52 - e))) * 2 powi (e - 52)"
    by (rule binary64_cases)
  show ?thesis
  proof (cases "e \<le> 52")
    case True
    define k where "k = nat (52 - e)"
    have k: "52 - e = int k" using True by (simp add: k_def)
    have s1: "(2::real) powi (52 - e) = 2 ^ k" by (simp add: k)
    have "e - 52 = - int k" using k by simp
    then have s2: "(2::real) powi (e - 52) = inverse (2 ^ k)"
      by (simp add: power_int_minus)
    have p': "p = of_int (round_ties_even (x * 2 ^ k)) / 2 ^ k"
      by (simp add: p s1 s2 divide_inverse)
    have "of_int (\<lfloor>x\<rfloor> * 2 ^ k) \<le> x * 2 ^ k"
      by simp
    then have "\<lfloor>x\<rfloor> * 2 ^ k \<le> round_ties_even (x * 2 ^ k)"
      by (rule round_ties_even_ge)
    then have "(of_int (\<lfloor>x\<rfloor> * 2 ^ k) :: real) \<le> of_int (round_ties_even (x * 2 ^ k))"
      by (simp only: of_int_le_iff)
    then have lo: "of_int \<lfloor>x\<rfloor> \<le> p"
      by (simp add: p' field_simps)
    have "x * 2 ^ k \<le> of_int (\<lceil>x\<rceil> * 2 ^ k)"
      by simp
    then have "round_ties_even (x * 2 ^ k) \<le> \<lceil>x\<rceil> * 2 ^ k"
      by (rule round_ties_even_le)
    then have "(of_int (round_ties_even (x * 2 ^ k)) :: real) \<le> of_int (\<lceil>x\<rceil> * 2 ^ k)"
      by (simp only: of_int_le_iff)
    then have hi: "p \<le> of_int \<lceil>x\<rceil>"
      by (simp add: p' field_simps)
    from lo hi show ?thesis ..
  next
    case False
    then have e53: "53 \<le> e" by simp
    then have "e = \<lfloor>log 2 \<bar>x\<bar>\<rfloor>" using e by (simp add: max_def split: if_splits)
    moreover have "0 < \<bar>x\<bar>" using \<open>x \<noteq> 0\<close> by simp
    ultimately have xe: "2 powi e \<le> \<bar>x\<bar>"
      using floor_log2_iff [of "\<bar>x\<bar>" e] by simp
    define k where "k = nat (e - 52)"
    have k: "e - 52 = int k" "1 \<le> k" using e53 by (simp_all add: k_def)
    have s2: "(2::real) powi (e - 52) = 2 ^ k" by (simp add: k)
    have "52 - e = - int k" using k by simp
    then have s1: "(2::real) powi (52 - e) = inverse (2 ^ k)"
      by (simp add: power_int_minus)
    have "e = int (52 + k)" using k by simp
    then have "(2::real) powi e = 2 powi int (52 + k)" by (simp only:)
    also have "\<dots> = 2 ^ (52 + k)" by (rule power_int_of_nat)
    finally have se: "(2::real) powi e = 2 ^ 52 * 2 ^ k"
      by (simp only: power_add)
    have p': "p = of_int (round_ties_even (x / 2 ^ k)) * 2 ^ k"
      by (simp add: p s1 s2 divide_inverse)
    have big: "(2::real) ^ 53 \<le> 2 ^ 52 * 2 ^ k"
    proof -
      have "(2::real) ^ 1 \<le> 2 ^ k" using k(2) by (intro power_increasing) simp_all
      then show ?thesis by simp
    qed
    have "\<bar>p\<bar> \<ge> 2 ^ 53"
    proof (cases "0 < x")
      case True
      then have "2 ^ 52 * 2 ^ k \<le> x" using xe se by simp
      then have "of_int (2 ^ 52) \<le> x / 2 ^ k" by (simp add: field_simps)
      then have "2 ^ 52 \<le> round_ties_even (x / 2 ^ k)" by (rule round_ties_even_ge)
      then have "(of_int (2 ^ 52) :: real) \<le> of_int (round_ties_even (x / 2 ^ k))"
        by (simp only: of_int_le_iff)
      then have "2 ^ 52 * 2 ^ k \<le> p"
        by (simp add: p')
      then show ?thesis using big by linarith
    next
      case False
      then have "x \<le> - (2 ^ 52 * 2 ^ k)" using xe se \<open>x \<noteq> 0\<close> by simp
      then have "x / 2 ^ k \<le> of_int (- (2 ^ 52))" by (simp add: field_simps)
      then have "round_ties_even (x / 2 ^ k) \<le> - (2 ^ 52)" by (rule round_ties_even_le)
      then have "(of_int (round_ties_even (x / 2 ^ k)) :: real) \<le> of_int (- (2 ^ 52))"
        by (simp only: of_int_le_iff)
      then have "of_int (round_ties_even (x / 2 ^ k)) * (2::real) ^ k \<le> of_int (- (2 ^ 52)) * 2 ^ k"
        by (rule mult_right_mono) simp
      then have "p \<le> - (2 ^ 52 * 2 ^ k)"
        by (simp add: p')
      then show ?thesis using big by linarith
    qed
    then show ?thesis using assms(2) by simp
  qed
qed



lemma js_div_44101_44100: "js_div 44101 44100 = Some (2251850874905513 / 2251799813685248)"
  using binary64_at [of 0 "44101 / 44100"]
  by (simp add: js_div_def round_ties_even_def)

lemma js_mul_44101_44100:
  "js_mul (Some (2251850874905513 / 2251799813685248)) 16000 = Some (2199073120024915 / 137438953472)"
  using binary64_at [of 13 "2251850874905513 / 2251799813685248 * 16000"]
  by (simp add: js_mul_def round_ties_even_def)

lemma js_div_1001_16000: "js_div 1001 16000 = Some (2254051613498933 / 36028797018963968)"
  using binary64_at [of "- 4" "1001 / 16000"]
  by (simp add: js_div_def round_ties_even_def)

lemma js_mul_1001_16000:
  "js_mul (Some (2254051613498933 / 36028797018963968)) 16000 = Some (8804889115230207 / 8796093022208)"
  using binary64_at [of 9 "2254051613498933 / 36028797018963968 * 16000"]
  by (simp add: js_mul_def round_ties_even_def)

lemma js_div_88641_44100: "js_div 88641 44100 = Some (1131529406376837 / 562949953421312)"
  using binary64_at [of 1 "88641 / 44100"]
  by (simp add: js_div_def round_ties_even_def)

lemma js_mul_88641_44100:
  "js_mul (Some (1131529406376837 / 562949953421312)) 16000 = Some (8840073487319039 / 274877906944)"
  using binary64_at [of 14 "1131529406376837 / 562949953421312 * 16000"]
  by (simp add: js_mul_def round_ties_even_def)

text \<open>
  The length asked for 88641 frames at 44100 Hz (2.01 s): 32159, where the exact product
  is 32160.
\<close>

lemma length_88641_44100:
  "js_mul (js_div 88641 44100) 16000 = Some (8840073487319039 / 274877906944) \<and>
   unat (ToUint32 (8840073487319039 / 274877906944)) = 32159 \<and>
   \<lceil>88641 / 44100 * 16000 :: real\<rceil> = 32160"
  by (simp add: js_div_88641_44100 js_mul_88641_44100 ToUint32_def IntegerPart_def)

subsection \<open>The rendered buffer\<close>

lemma wf_render: "render P ctx src = Inr rb \<Longrightarrow> wf_AudioBuffer rb"
  by (auto simp: render_def wf_AudioBuffer_def list_all_iff split: sum.splits)

lemma render_dims:
  "render P ctx src = Inr rb \<Longrightarrow>
   numberOfChannels rb = oac_numberOfChannels ctx \<and> length_buf rb = oac_length ctx \<and>
   sampleRate rb = oac_sampleRate ctx"
  by (auto simp: render_def numberOfChannels_def split: sum.splits)

lemma unat_ToUint32:
  assumes "0 \<le> x" and "x < 2 ^ 32"
  shows "unat (ToUint32 x) = nat \<lfloor>x\<rfloor>"
proof -
  have "0 \<le> \<lfloor>x\<rfloor>" using assms(1) by simp
  moreover have "\<lfloor>x\<rfloor> < 2 ^ 32" using assms(2) by (simp add: floor_less_iff)
  ultimately have "take_bit 32 \<lfloor>x\<rfloor> = \<lfloor>x\<rfloor>"
    by (simp add: take_bit_int_eq_self)
  then show ?thesis
    using assms(1) by (simp add: ToUint32_def IntegerPart_def unsigned_of_int)
qed

lemma voice_pipeline_rate:
  "voice_pipeline P env chunks sent =
     (case resampleAudio_render P (concat chunks) 16000 of
        Inl e \<Rightarrow> (sent, Inl e)
      | Inr rendered \<Rightarrow>
          (case bufferToWav rendered of
             Inl e \<Rightarrow> (sent, Inl e)
           | Inr wav \<Rightarrow> transcribeAudio P env wav sent))"
  by (simp add: voice_pipeline_def resampleAudio_def split: sum.splits)

text \<open>A rendering that succeeds was asked for with a finite duration and a finite length.\<close>

lemma resampleAudio_render_finite:
  assumes "readAsArrayBuffer P audioBlob = Inr arrayBuffer"
    and "decodeAudioData P rate arrayBuffer = Inr source"
    and "resampleAudio_render P audioBlob rate = Inr rendered"
  shows "\<exists>d p. duration source = Some d \<and> js_mul (Some d) rate = Some p \<and>
    length_buf rendered = unat (ToUint32 p)"
proof -
  from assms obtain ctx where
    ctx: "new_OfflineAudioContext P (numberOfChannels source) (js_mul (duration source) rate) rate = Inr ctx"
    and r: "render P ctx source = Inr rendered"
    by (auto simp: resampleAudio_render_def split: sum.splits)
  from ctx obtain p where p: "js_mul (duration source) rate = Some p"
    "oac_length ctx = unat (ToUint32 p)"
    by (auto simp: new_OfflineAudioContext_def Let_def split: if_splits option.splits)
  from p(1) obtain d where d: "duration source = Some d"
    by (auto simp: js_mul_def split: option.splits)
  show ?thesis
    using d p render_dims [OF r] by simp
qed

text \<open>
  Claim C3, as the code has it. When the blob is read and decoded and the rendering
  succeeds, the rendered buffer has the channel count of the decoded source and the rate
  asked for. Its length is the number that \<^verbatim>\<open>audioBuffer.duration * targetSampleRate\<close>
  computes, with its fraction dropped (the \<^verbatim>\<open>length\<close> parameter of \<^verbatim>\<open>OfflineAudioContext\<close> is an
  \<^verbatim>\<open>unsigned long\<close>): the duration \<open>d\<close> is the binary64 quotient of the source's length and
  rate, the product \<open>p\<close> the binary64 product of \<open>d\<close> and the target rate. That length is
  the ceiling of the exact product \<open>d * rate\<close> or one less, and no less than its floor.
  The pipeline of \<^verbatim>\<open>onstop\<close> always asks for 16000 Hz.
\<close>

theorem resampleAudio_render_shape:
  assumes "readAsArrayBuffer P audioBlob = Inr arrayBuffer"
    and "decodeAudioData P rate arrayBuffer = Inr source"
    and "resampleAudio_render P audioBlob rate = Inr rendered"
    and "duration source = Some d" and "js_mul (Some d) rate = Some p"
    and "0 \<le> p" and "p < 2 ^ 32"
  shows "length_buf rendered = nat \<lfloor>p\<rfloor> \<and>
     nat \<lfloor>d * rate\<rfloor> \<le> length_buf rendered \<and>
     length_buf rendered \<le> nat \<lceil>d * rate\<rceil> \<and>
     nat \<lceil>d * rate\<rceil> \<le> length_buf rendered + 1 \<and>
     numberOfChannels rendered = numberOfChannels source \<and>
     sampleRate rendered = rate \<and> wf_AudioBuffer rendered \<and>
     voice_pipeline P env chunks sent =
       (case resampleAudio_render P (concat chunks) 16000 of
          Inl e \<Rightarrow> (sent, Inl e)
        | Inr rendered \<Rightarrow>
            (case bufferToWav rendered of
               Inl e \<Rightarrow> (sent, Inl e)
             | Inr wav \<Rightarrow> transcribeAudio P env wav sent))"
proof -
  let ?y = "d * rate"
  from assms(1-3) obtain ctx where
    ctx: "new_OfflineAudioContext P (numberOfChannels source) (js_mul (duration source) rate) rate = Inr ctx"
    and r: "render P ctx source = Inr rendered"
    by (auto simp: resampleAudio_render_def split: sum.splits)
  from ctx assms(4,5) have "oac_numberOfChannels ctx = numberOfChannels source"
    "oac_length ctx = unat (ToUint32 p)" "oac_sampleRate ctx = rate"
    by (auto simp: new_OfflineAudioContext_def Let_def split: if_splits)
  then have shape: "length_buf rendered = nat \<lfloor>p\<rfloor>"
    "numberOfChannels rendered = numberOfChannels source" "sampleRate rendered = rate"
    using render_dims [OF r] unat_ToUint32 [OF assms(6,7)] by simp_all
  have b: "binary64 ?y = Some p"
    using assms(5) by (simp add: js_mul_def)
  have "\<bar>p\<bar> < 2 ^ 53"
    using assms(6,7) by simp
  with b have between: "of_int \<lfloor>?y\<rfloor> \<le> p" "p \<le> of_int \<lceil>?y\<rceil>"
    using binary64_between [of ?y p] by simp_all
  from between(1) have 1: "\<lfloor>?y\<rfloor> \<le> \<lfloor>p\<rfloor>"
    by (simp add: le_floor_iff)
  from between(2) have 2: "\<lfloor>p\<rfloor> \<le> \<lceil>?y\<rceil>"
    by (simp add: floor_le_iff)
  have 3: "\<lceil>?y\<rceil> \<le> \<lfloor>?y\<rfloor> + 1"
    by (simp add: ceiling_altdef)
  have 0: "0 \<le> \<lfloor>p\<rfloor>" using assms(6) by simp
  have lo: "nat \<lfloor>?y\<rfloor> \<le> nat \<lfloor>p\<rfloor>" using 1 by (rule nat_mono)
  have hi: "nat \<lfloor>p\<rfloor> \<le> nat \<lceil>?y\<rceil>" using 2 by (rule nat_mono)
  have near: "nat \<lceil>?y\<rceil> \<le> nat \<lfloor>p\<rfloor> + 1" using 0 1 3 by linarith
  show ?thesis
    using shape lo hi near wf_render [OF r] voice_pipeline_rate [of P env chunks sent] by simp
qed

theorem resampleAudio_render_shape_witness:
  "readAsArrayBuffer safari [] = Inr [] \<and>
   decodeAudioData safari 16000 [] =
     Inr \<lparr>length_buf = 44101, sampleRate = 44100, channelData = [replicate 44101 0]\<rparr> \<and>
   duration \<lparr>length_buf = 44101, sampleRate = 44100, channelData = [replicate 44101 0]\<rparr> =
     Some (2251850874905513 / 2251799813685248) \<and>
   js_mul (Some (2251850874905513 / 2251799813685248)) 16000 =
     Some (2199073120024915 / 137438953472) \<and>
   (\<exists>rendered. resampleAudio_render safari [] 16000 = Inr rendered \<and>
      length_buf rendered = 16000 \<and> numberOfChannels rendered = 1 \<and> sampleRate rendered = 16000)"
proof -
  let ?src = "\<lparr>length_buf = 44101, sampleRate = 44100, channelData = [replicate 44101 0]\<rparr>"
  let ?d = "2251850874905513 / 2251799813685248 :: real"
  let ?p = "2199073120024915 / 137438953472 :: real"
  have 1: "readAsArrayBuffer safari [] = Inr []"
    and 2: "decodeAudioData safari 16000 [] = Inr ?src"
    by (simp_all add: safari_def)
  have 4: "duration ?src = Some ?d"
    by (simp add: duration_def js_div_44101_44100)
  have 5: "js_mul (Some ?d) 16000 = Some ?p"
    by (rule js_mul_44101_44100)
  obtain rendered where 3: "resampleAudio_render safari [] 16000 = Inr rendered"
    by (simp add: safari_def resampleAudio_render_def new_OfflineAudioContext_def render_def
        duration_def js_div_44101_44100 js_mul_44101_44100 numberOfChannels_def ToUint32_def
        IntegerPart_def)
  have 6: "0 \<le> ?p" and 7: "?p < 2 ^ 32"
    by simp_all
  from resampleAudio_render_shape [OF 1 2 3 4 5 6 7] 1 2 3 4 5 show ?thesis
    by (simp add: numberOfChannels_def)
qed

text \<open>
  A clip of 1001 frames decoded at 16000 Hz: its duration is the binary64 number next
  below 1001/16000, and its product with 16000 the one next below 1001. The rendered
  buffer has 1000 frames; the ceiling of the product is 1001, whether the duration is
  taken exactly or as computed.
\<close>

theorem resample_length_counterexample:
  "decodeAudioData chromium 16000 [] =
     Inr \<lparr>length_buf = 1001, sampleRate = 16000, channelData = [replicate 1001 0]\<rparr> \<and>
   duration \<lparr>length_buf = 1001, sampleRate = 16000, channelData = [replicate 1001 0]\<rparr> =
     Some (2254051613498933 / 36028797018963968) \<and>
   \<lceil>2254051613498933 / 36028797018963968 * 16000 :: real\<rceil> = 1001 \<and>
   \<lceil>1001 / 16000 * 16000 :: real\<rceil> = 1001 \<and>
   resampleAudio_render chromium [] 16000 =
     Inr \<lparr>length_buf = 1000, sampleRate = 16000, channelData = [replicate 1000 0]\<rparr>"
  by (simp add: chromium_def resampleAudio_render_def new_OfflineAudioContext_def render_def
      duration_def js_div_1001_16000 js_mul_1001_16000 numberOfChannels_def ToUint32_def
      IntegerPart_def map_replicate_const)

section \<open>Properties of the transcription client\<close>

text \<open>
  Claim C8. \<open>transcribeAudio\<close> sends exactly one request, whatever the outcome: a \<^verbatim>\<open>POST\<close> to
  the base URL followed by \<^verbatim>\<open>/transcribe\<close>, whose form has the single field \<^verbatim>\<open>audio\<close> holding
  the blob under the file name \<^verbatim>\<open>recording.wav\<close>. On a response with a status from 200 to
  299 whose JSON object has a string \<^verbatim>\<open>transcript\<close>, it returns that string; on any other
  status it throws \<^verbatim>\<open>Failed to transcribe audio\<close>; a rejected \<^verbatim>\<open>fetch\<close> is rethrown. The
  pipeline of \<^verbatim>\<open>onstop\<close> sends at most this one request.
\<close>

theorem transcribeAudio_request:
  "fst (transcribeAudio P env audioBlob sent) =
     sent @ [\<lparr>url = API_BASE_URL env @ ''/transcribe'', http_method = ''POST'', mode = ''cors'',
              headers = [],
              body = [\<lparr>fd_name = ''audio'', fd_blob = audioBlob, fd_filename = ''recording.wav''\<rparr>]\<rparr>] \<and>
   (\<forall>response kvs t.
      fetch P (transcribe_request env audioBlob) = Inr response \<and> ok response \<and>
      json response = Inr (Obj kvs) \<and> map_of kvs ''transcript'' = Some (Str t) \<longrightarrow>
      snd (transcribeAudio P env audioBlob sent) = Inr (Str t)) \<and>
   (\<forall>response.
      fetch P (transcribe_request env audioBlob) = Inr response \<and> \<not> ok response \<longrightarrow>
      snd (transcribeAudio P env audioBlob sent) = Inl (Error ''Failed to transcribe audio'')) \<and>
   (\<forall>e. fetch P (transcribe_request env audioBlob) = Inl e \<longrightarrow>
      snd (transcribeAudio P env audioBlob sent) = Inl e) \<and>
   (\<forall>response. ok response \<longleftrightarrow> 200 \<le> status response \<and> status response \<le> 299) \<and>
   length (fst (voice_pipeline P env chunks sent)) \<le> Suc (length sent)"
proof -
  have "fst (transcribeAudio P env audioBlob sent) = sent @ [transcribe_request env audioBlob]"
    for audioBlob
    by (simp add: transcribeAudio_def do_fetch_def split: sum.splits)
  note sent = this
  have a: "fst (transcribeAudio P env audioBlob sent) =
     sent @ [\<lparr>url = API_BASE_URL env @ ''/transcribe'', http_method = ''POST'', mode = ''cors'',
              headers = [],
              body = [\<lparr>fd_name = ''audio'', fd_blob = audioBlob, fd_filename = ''recording.wav''\<rparr>]\<rparr>]"
    by (simp add: sent transcribe_request_def)
  have b: "snd (transcribeAudio P env audioBlob sent) = Inr (Str t)"
    if "fetch P (transcribe_request env audioBlob) = Inr response" "ok response"
      "json response = Inr (Obj kvs)" "map_of kvs ''transcript'' = Some (Str t)"
    for response kvs t
    using that by (simp add: transcribeAudio_def do_fetch_def)
  have c: "snd (transcribeAudio P env audioBlob sent) = Inl (Error ''Failed to transcribe audio'')"
    if "fetch P (transcribe_request env audioBlob) = Inr response" "\<not> ok response"
    for response
    using that by (simp add: transcribeAudio_def do_fetch_def)
  have d: "snd (transcribeAudio P env audioBlob sent) = Inl e"
    if "fetch P (transcribe_request env audioBlob) = Inl e" for e
    using that by (simp add: transcribeAudio_def do_fetch_def)
  have e: "length (fst (voice_pipeline P env chunks sent)) \<le> Suc (length sent)"
    by (simp add: voice_pipeline_def sent split: sum.splits)
  show ?thesis
    using a b c d e by (simp add: ok_def)
qed

theorem transcribeAudio_request_witness:
  "transcribeAudio server_ok None [82, 73] [] =
     ([\<lparr>url = ''https://aged-voice-9300.ploomber.app//transcribe'', http_method = ''POST'',
         mode = ''cors'', headers = [],
         body = [\<lparr>fd_name = ''audio'', fd_blob = [82, 73], fd_filename = ''recording.wav''\<rparr>]\<rparr>],
      Inr (Str ''namaste'')) \<and>
   snd (transcribeAudio server_down None [82, 73] []) = Inl (Error ''Failed to transcribe audio'') \<and>
   snd (transcribeAudio safari None [82, 73] []) = Inl NetworkError"
proof -
  note t1 = transcribeAudio_request [of server_ok None "[82, 73]" "[]"]
  note t2 = transcribeAudio_request [of server_down None "[82, 73]" "[]"]
  note t3 = transcribeAudio_request [of safari None "[82, 73]" "[]"]
  have f1: "fetch server_ok (transcribe_request None [82, 73]) =
      Inr \<lparr>status = 200, json = Inr (Obj [(''transcript'', Str ''namaste'')])\<rparr>"
    and f2: "fetch server_down (transcribe_request None [82, 73]) =
      Inr \<lparr>status = 500, json = Inl SyntaxError\<rparr>"
    and f3: "fetch safari (transcribe_request None [82, 73]) = Inl NetworkError"
    by (simp_all add: server_ok_def server_down_def safari_def)
  have o1: "ok \<lparr>status = 200, json = Inr (Obj [(''transcript'', Str ''namaste'')])\<rparr>"
    and o2: "\<not> ok \<lparr>status = 500, json = Inl SyntaxError\<rparr>"
    by (simp_all add: ok_def)
  from t1 f1 o1 have a: "snd (transcribeAudio server_ok None [82, 73] []) = Inr (Str ''namaste'')"
    by simp
  from t1 have b: "fst (transcribeAudio server_ok None [82, 73] []) =
     [\<lparr>url = ''https://aged-voice-9300.ploomber.app//transcribe'', http_method = ''POST'',
         mode = ''cors'', headers = [],
         body = [\<lparr>fd_name = ''audio'', fd_blob = [82, 73], fd_filename = ''recording.wav''\<rparr>]\<rparr>]"
    by (simp add: API_BASE_URL_def)
  from t2 f2 o2 have c: "snd (transcribeAudio server_down None [82, 73] []) =
      Inl (Error ''Failed to transcribe audio'')"
    by simp
  from t3 f3 have d: "snd (transcribeAudio safari None [82, 73] []) = Inl NetworkError"
    by simp
  from a b have "transcribeAudio server_ok None [82, 73] [] =
     ([\<lparr>url = ''https://aged-voice-9300.ploomber.app//transcribe'', http_method = ''POST'',
         mode = ''cors'', headers = [],
         body = [\<lparr>fd_name = ''audio'', fd_blob = [82, 73], fd_filename = ''recording.wav''\<rparr>]\<rparr>],
      Inr (Str ''namaste''))"
    by (simp add: prod_eq_iff)
  with c d show ?thesis
    by (intro conjI)
qed

section \<open>Properties of the handlers\<close>

lemma lookup_Some_iff: "lookup xs i = Some x \<longleftrightarrow> i < length xs \<and> xs ! i = x"
  by (auto simp: lookup_def)

lemma lookup_None_iff: "lookup xs i = None \<longleftrightarrow> length xs \<le> i"
  by (auto simp: lookup_def)

lemma is_recording_iff:
  "is_recording c r \<longleftrightarrow> r < length (recorders c) \<and> map state (recorders c) ! r = recording"
  by (auto simp: is_recording_def lookup_def)

lemma stopRecording_active:
  assumes "mediaRecorderRef s = Some r" and "lookup (recorders s) r = Some m"
    and "state m \<noteq> inactive"
  shows "stopRecording s = MediaRecorder_stop s r"
  using assms by (simp add: stopRecording_def)

lemma stopRecording_idem: "stopRecording (stopRecording s) = stopRecording s"
proof (cases "\<exists>r m. mediaRecorderRef s = Some r \<and> lookup (recorders s) r = Some m \<and> state m \<noteq> inactive")
  case True
  then obtain r m where r: "mediaRecorderRef s = Some r" "lookup (recorders s) r = Some m"
    "state m \<noteq> inactive"
    by blast
  then have 1: "stopRecording s = MediaRecorder_stop s r"
    by (rule stopRecording_active)
  have "r < length (recorders s)"
    using r(2) by (simp add: lookup_Some_iff)
  then have "stopRecording (MediaRecorder_stop s r) = MediaRecorder_stop s r"
    using r(1) by (simp add: stopRecording_def MediaRecorder_stop_def lookup_def)
  then show ?thesis by (simp add: 1)
next
  case False
  then have "stopRecording s = s"
    by (auto simp: stopRecording_def split: option.splits)
  then show ?thesis by simp
qed

text \<open>
  Claim C10. \<open>stopRecording\<close> changes nothing when there is no recorder (as before any
  start) or when the recorder is inactive (as after a stop: stopping twice is stopping
  once); being a total function it throws nothing. It calls \<^verbatim>\<open>stop\<close> on the recorder, which
  becomes inactive, exactly when the recorder of \<open>mediaRecorderRef\<close> is not inactive.
\<close>

theorem stopRecording_safe:
  "(mediaRecorderRef s = None \<longrightarrow> stopRecording s = s) \<and>
   (\<forall>r m. mediaRecorderRef s = Some r \<and> lookup (recorders s) r = Some m \<and> state m = inactive \<longrightarrow>
      stopRecording s = s) \<and>
   stopRecording initial = initial \<and>
   stopRecording (stopRecording s) = stopRecording s \<and>
   (\<forall>r m. mediaRecorderRef s = Some r \<and> lookup (recorders s) r = Some m \<and> state m \<noteq> inactive \<longrightarrow>
      stopRecording s = MediaRecorder_stop s r \<and>
      stopCalls (stopRecording s) = stopCalls s @ [r] \<and>
      lookup (recorders (stopRecording s)) r = Some (m\<lparr>state := inactive\<rparr>)) \<and>
   (stopCalls (stopRecording s) \<noteq> stopCalls s \<longleftrightarrow>
      (\<exists>r m. mediaRecorderRef s = Some r \<and> lookup (recorders s) r = Some m \<and> state m \<noteq> inactive))"
proof -
  have a: "stopRecording s = s" if "mediaRecorderRef s = None"
    using that by (simp add: stopRecording_def)
  have b: "stopRecording s = s"
    if "mediaRecorderRef s = Some r" "lookup (recorders s) r = Some m" "state m = inactive" for r m
    using that by (simp add: stopRecording_def)
  have c: "stopRecording initial = initial"
    by (simp add: stopRecording_def initial_def)
  have d: "stopRecording s = MediaRecorder_stop s r \<and>
      stopCalls (stopRecording s) = stopCalls s @ [r] \<and>
      lookup (recorders (stopRecording s)) r = Some (m\<lparr>state := inactive\<rparr>)"
    if "mediaRecorderRef s = Some r" "lookup (recorders s) r = Some m" "state m \<noteq> inactive" for r m
    using that by (auto simp: stopRecording_def MediaRecorder_stop_def lookup_def split: if_splits)
  have e: "stopCalls (stopRecording s) \<noteq> stopCalls s \<longleftrightarrow>
      (\<exists>r m. mediaRecorderRef s = Some r \<and> lookup (recorders s) r = Some m \<and> state m \<noteq> inactive)"
    by (auto simp: stopRecording_def MediaRecorder_stop_def split: option.splits)
  show ?thesis
    using a b c d e stopRecording_idem [of s] by blast
qed

theorem stopRecording_safe_witness:
  "mediaRecorderRef initial = None \<and> stopRecording initial = initial \<and>
   mediaRecorderRef capturing_example = Some 0 \<and>
   lookup (recorders capturing_example) 0 = Some \<lparr>state = recording, stream = 0\<rparr> \<and>
   stopCalls (stopRecording capturing_example) = [0] \<and>
   lookup (recorders (stopRecording capturing_example)) 0 = Some \<lparr>state = inactive, stream = 0\<rparr> \<and>
   stopRecording (stopRecording capturing_example) = stopRecording capturing_example"
proof -
  have ex: "mediaRecorderRef capturing_example = Some 0"
    "lookup (recorders capturing_example) 0 = Some \<lparr>state = recording, stream = 0\<rparr>"
    "stopCalls capturing_example = []"
    by (simp_all add: capturing_example_def initial_def startRecording_def startRecording_begin_def
        startRecording_resume_def ondataavailable_def lookup_def)
  have i: "mediaRecorderRef initial = None"
    by (simp add: initial_def)
  note t = stopRecording_safe [of capturing_example]
  from t ex have a: "stopCalls (stopRecording capturing_example) = [0]"
    and b: "lookup (recorders (stopRecording capturing_example)) 0 = Some \<lparr>state = inactive, stream = 0\<rparr>"
    by auto
  from t have c: "stopRecording initial = initial"
    and d: "stopRecording (stopRecording capturing_example) = stopRecording capturing_example"
    by simp_all
  from i c ex(1,2) a b d show ?thesis
    by (intro conjI)
qed

lemma not_live_update: "\<not> live (s\<lparr>streams := (streams s)[sid := False]\<rparr>) sid"
  by (simp add: live_def lookup_def)

lemma not_live_onstop_finish: "\<not> live (onstop_finish s sid outcome) sid"
  by (simp add: onstop_finish_def Let_def live_def lookup_def split: sum.splits)


lemma onstop_finish_fields:
  "isTranscribing (onstop_finish c sid outcome) = False"
  "recorders (onstop_finish c sid outcome) = recorders c"
  "audioChunksRef (onstop_finish c sid outcome) = audioChunksRef c"
  "mediaRecorderRef (onstop_finish c sid outcome) = mediaRecorderRef c"
  "\<not> isRecording (voiceState c) \<Longrightarrow> \<not> isRecording (voiceState (onstop_finish c sid outcome))"
  by (simp_all add: onstop_finish_def Let_def split: sum.splits)










section \<open>Properties of the component driven by its events\<close>

text \<open>
  Every step keeps the world in one of the five phases, and every chunk non-empty. A click
  starts a cycle only from the idle phase: in every other phase either the button is
  disabled or \<open>isRecording\<close> sends the click to \<open>stopRecording\<close>.
\<close>

lemma all_inactive_not_recording: "all_inactive w \<Longrightarrow> \<not> is_recording (component w) r"
  by (auto simp: all_inactive_def recorder_states_def is_recording_iff)

lemma all_inactive_state:
  "all_inactive w \<Longrightarrow> r < length (recorders (component w)) \<Longrightarrow> state (recorders (component w) ! r) = inactive"
  by (metis all_inactive_def recorder_states_def nth_map nth_replicate)

lemma inv_initial: "inv initial_world"
  by (simp add: inv_def idle_def initial_world_def initial_def all_inactive_def recorder_states_def)

lemma replicate_update_same [simp]: "(replicate n x)[i := x] = replicate n x"
  by (induction n arbitrary: i) (auto split: nat.splits)

lemma replicate_snoc_update: "replicate n x @ [y] = (replicate (Suc n) x)[n := y]"
  by (induction n) auto

lemma states_nth:
  "map state xs = ss \<Longrightarrow> i < length xs \<Longrightarrow> state (xs ! i) = ss ! i"
  by (metis nth_map)

lemma stopRecording_all_inactive:
  assumes "all_inactive w"
  shows "stopRecording (component w) = component w"
proof -
  have "state m = inactive" if "lookup (recorders (component w)) r = Some m" for r m
    using all_inactive_state [OF assms, of r] that by (auto simp: lookup_Some_iff)
  then show ?thesis
    by (auto simp: stopRecording_def split: option.splits)
qed

lemma capturing_ref:
  assumes "capturing w"
  obtains r where "mediaRecorderRef (component w) = Some r" "r < length (recorders (component w))"
    "recorder_states w = (replicate (length (recorders (component w))) inactive)[r := recording]"
    "state (recorders (component w) ! r) = recording"
proof -
  from assms obtain r where r: "mediaRecorderRef (component w) = Some r"
    "r < length (recorders (component w))"
    "recorder_states w = (replicate (length (recorders (component w))) inactive)[r := recording]"
    by (auto simp: capturing_def)
  from r(2,3) have "state (recorders (component w) ! r) = recording"
    using states_nth [of "recorders (component w)" _ r] by (simp add: recorder_states_def)
  with r show ?thesis by (rule that)
qed

lemma capturing_is_recording:
  assumes "capturing w"
  shows "is_recording (component w) r \<longleftrightarrow> mediaRecorderRef (component w) = Some r"
proof -
  from assms obtain r0 where r0: "mediaRecorderRef (component w) = Some r0"
    "r0 < length (recorders (component w))"
    "recorder_states w = (replicate (length (recorders (component w))) inactive)[r0 := recording]"
    by (rule capturing_ref)
  show ?thesis
    using r0 by (auto simp: is_recording_iff recorder_states_def nth_list_update)
qed

lemma stopRecording_capturing:
  assumes "capturing w" and "mediaRecorderRef (component w) = Some r"
  shows "stopRecording (component w) = MediaRecorder_stop (component w) r"
proof -
  from assms(1) obtain r0 where "mediaRecorderRef (component w) = Some r0"
    "r0 < length (recorders (component w))" "state (recorders (component w) ! r0) = recording"
    by (rule capturing_ref)
  with assms(2) show ?thesis
    by (simp add: stopRecording_def lookup_def)
qed

lemma stop_states:
  assumes "recorder_states w = (replicate (length (recorders (component w))) inactive)[r := recording]"
  shows "map state ((recorders (component w))[r := (recorders (component w) ! r)\<lparr>state := inactive\<rparr>]) =
    replicate (length (recorders (component w))) inactive"
  using assms by (simp add: map_update recorder_states_def)

lemma step_Click:
  assumes "step P env w Click = Some w'"
  shows "\<not> isTranscribing (component w)"
    and "component w' = toggleRecording (component w)"
    and "pendingStarts w' =
      (if isRecording (voiceState (component w)) then pendingStarts w else Suc (pendingStarts w))"
    and "pendingStops w' =
      pendingStops w @ drop (length (stopCalls (component w))) (stopCalls (toggleRecording (component w)))"
    and "pipelines w' = pipelines w"
  using assms by (auto simp: Let_def split: if_splits)

lemma Click_idle:
  assumes "idle w" and "step P env w Click = Some w'"
  shows "starting w'"
  using assms(1) step_Click [OF assms(2)]
  by (simp add: idle_def starting_def toggleRecording_def startRecording_begin_def
      all_inactive_def recorder_states_def)

lemma Click_starting:
  assumes "starting w" and "step P env w Click = Some w'"
  shows "starting w'"
proof -
  have "all_inactive w" using assms(1) by (simp add: starting_def)
  then have "toggleRecording (component w) = component w"
    using assms(1) by (simp add: toggleRecording_def starting_def stopRecording_all_inactive)
  then show ?thesis
    using assms(1) step_Click [OF assms(2)]
    by (simp add: starting_def all_inactive_def recorder_states_def)
qed

lemma Click_capturing:
  assumes "capturing w" and "step P env w Click = Some w'"
  shows "stopping w'"
proof -
  from assms(1) obtain r where r: "mediaRecorderRef (component w) = Some r"
    "r < length (recorders (component w))"
    "recorder_states w = (replicate (length (recorders (component w))) inactive)[r := recording]"
    by (rule capturing_ref)
  have c: "isRecording (voiceState (component w))" "\<not> isTranscribing (component w)"
    "pendingStarts w = 0" "pendingStops w = []" "pipelines w = []"
    using assms(1) by (simp_all add: capturing_def)
  have t: "toggleRecording (component w) = MediaRecorder_stop (component w) r"
    using c stopRecording_capturing [OF assms(1) r(1)] by (simp add: toggleRecording_def)
  show ?thesis
    using c r(2) stop_states [OF r(3)] step_Click [OF assms(2)]
    by (simp add: t stopping_def MediaRecorder_stop_def all_inactive_def recorder_states_def)
qed

lemma Click_stopping:
  assumes "stopping w" and "step P env w Click = Some w'"
  shows "stopping w'"
proof -
  have "all_inactive w" using assms(1) by (simp add: stopping_def)
  then have "toggleRecording (component w) = component w"
    using assms(1) by (simp add: toggleRecording_def stopping_def stopRecording_all_inactive)
  then show ?thesis
    using assms(1) step_Click [OF assms(2)]
    by (simp add: stopping_def all_inactive_def recorder_states_def)
qed

lemma Click_transcribing: "transcribing w \<Longrightarrow> step P env w Click = None"
  by (simp add: transcribing_def)

lemma step_Granted:
  assumes "step P env w Granted = Some w'"
  shows "pendingStarts w \<noteq> 0"
    and "component w' = startRecording_resume (component w) (Inr ())"
    and "pendingStarts w' = pendingStarts w - 1"
    and "pendingStops w' = pendingStops w"
    and "pipelines w' = pipelines w"
  using assms by (auto split: if_splits)

lemma step_Denied:
  assumes "step P env w (Denied e) = Some w'"
  shows "pendingStarts w \<noteq> 0"
    and "component w' = startRecording_resume (component w) (Inl e)"
    and "pendingStarts w' = pendingStarts w - 1"
    and "pendingStops w' = pendingStops w"
    and "pipelines w' = pipelines w"
  using assms by (auto split: if_splits)

lemma Granted_starting:
  assumes "starting w" and "step P env w Granted = Some w'"
  shows "capturing w'"
proof -
  let ?n = "length (recorders (component w))"
  have "map state (recorders (component w)) = replicate ?n inactive"
    using assms(1) by (simp add: starting_def all_inactive_def recorder_states_def)
  then have "map state (recorders (component w) @ [\<lparr>state = recording, stream = length (streams (component w))\<rparr>]) =
      (replicate (Suc ?n) inactive)[?n := recording]"
    by (simp add: replicate_snoc_update)
  then show ?thesis
    using assms(1) step_Granted [OF assms(2)]
    by (simp add: starting_def capturing_def startRecording_resume_def recorder_states_def)
qed

lemma Denied_starting:
  assumes "starting w" and "step P env w (Denied e) = Some w'"
  shows "idle w'"
  using assms(1) step_Denied [OF assms(2)]
  by (simp add: starting_def idle_def startRecording_resume_def all_inactive_def recorder_states_def)

lemma Granted_enabled: "step P env w Granted = Some w' \<Longrightarrow> inv w \<Longrightarrow> starting w"
  by (auto simp: inv_def idle_def capturing_def stopping_def transcribing_def split: if_splits)

lemma Denied_enabled: "step P env w (Denied e) = Some w' \<Longrightarrow> inv w \<Longrightarrow> starting w"
  by (auto simp: inv_def idle_def capturing_def stopping_def transcribing_def split: if_splits)

lemma ondataavailable_update:
  "ondataavailable c d =
     c\<lparr>audioChunksRef := (if 0 < length d then audioChunksRef c @ [d] else audioChunksRef c)\<rparr>"
  by (simp add: ondataavailable_def)

lemma step_DataAvailable:
  assumes "step P env w (DataAvailable r d) = Some w'"
  shows "is_recording (component w) r \<or> r \<in> set (pendingStops w)"
    and "component w' = ondataavailable (component w) d"
    and "pendingStarts w' = pendingStarts w"
    and "pendingStops w' = pendingStops w"
    and "pipelines w' = pipelines w"
  using assms by (auto split: if_splits)

lemma DataAvailable_phase:
  assumes "step P env w (DataAvailable r d) = Some w'"
  shows "idle w' = idle w" "starting w' = starting w" "capturing w' = capturing w"
    "stopping w' = stopping w" "transcribing w' = transcribing w"
  using step_DataAvailable(2-5) [OF assms]
  by (simp_all add: idle_def starting_def capturing_def stopping_def transcribing_def
      all_inactive_def recorder_states_def ondataavailable_update)

lemma step_TracksEnded:
  assumes "step P env w (TracksEnded r) = Some w'"
  shows "is_recording (component w) r"
    and "component w' = (component w)\<lparr>recorders :=
      (recorders (component w))[r := (recorders (component w) ! r)\<lparr>state := inactive\<rparr>]\<rparr>"
    and "pendingStarts w' = pendingStarts w"
    and "pendingStops w' = pendingStops w @ [r]"
    and "pipelines w' = pipelines w"
  using assms by (auto split: if_splits)

lemma TracksEnded_enabled:
  assumes "step P env w (TracksEnded r) = Some w'" and "inv w"
  shows "capturing w \<and> mediaRecorderRef (component w) = Some r"
proof -
  have rec: "is_recording (component w) r"
    using step_TracksEnded(1) [OF assms(1)] .
  then have "\<not> all_inactive w"
    using all_inactive_not_recording by blast
  then have "capturing w"
    using assms(2) by (auto simp: inv_def idle_def starting_def stopping_def transcribing_def)
  then show ?thesis
    using rec capturing_is_recording by blast
qed

lemma TracksEnded_capturing:
  assumes "step P env w (TracksEnded r) = Some w'" and "inv w"
  shows "stopping w'"
proof -
  from TracksEnded_enabled [OF assms] have c: "capturing w"
    and ref: "mediaRecorderRef (component w) = Some r"
    by simp_all
  from c obtain r0 where r0: "mediaRecorderRef (component w) = Some r0"
    "r0 < length (recorders (component w))"
    "recorder_states w = (replicate (length (recorders (component w))) inactive)[r0 := recording]"
    by (rule capturing_ref)
  with ref have r: "r < length (recorders (component w))"
    "recorder_states w = (replicate (length (recorders (component w))) inactive)[r := recording]"
    by simp_all
  show ?thesis
    using c r(1) stop_states [OF r(2)] step_TracksEnded [OF assms(1)]
    by (simp add: capturing_def stopping_def all_inactive_def recorder_states_def)
qed

lemma step_StopEvent:
  assumes "step P env w (StopEvent r) = Some w'"
  shows "r \<in> set (pendingStops w)"
    and "component w' = onstop_begin (component w)"
    and "pendingStarts w' = pendingStarts w"
    and "pendingStops w' = removeAll r (pendingStops w)"
    and "length (pipelines w') = Suc (length (pipelines w))"
    and "set (map fst (pipelines w')) = insert r (set (map fst (pipelines w)))"
  using assms by (auto simp: Let_def split: if_splits prod.splits)

lemma StopEvent_stopping:
  assumes "step P env w (StopEvent r) = Some w'" and "inv w"
  shows "transcribing w'"
proof -
  have mem: "r \<in> set (pendingStops w)"
    using step_StopEvent(1) [OF assms(1)] .
  then have s: "stopping w"
    using assms(2) by (auto simp: inv_def idle_def starting_def capturing_def transcribing_def)
  then obtain r0 where "pendingStops w = [r0]"
    by (auto simp: stopping_def length_Suc_conv)
  with mem have ps: "pendingStops w = [r]" by simp
  have r: "r < length (recorders (component w))"
    using s ps by (simp add: stopping_def)
  have "pipelines w = []" using s by (simp add: stopping_def)
  then have "list_all (\<lambda>p. fst p < length (recorders (component w))) (pipelines w')"
    using step_StopEvent(6) [OF assms(1)] r by (auto simp: list_all_iff)
  then show ?thesis
    using s ps step_StopEvent(2-5) [OF assms(1)]
    by (simp add: stopping_def transcribing_def onstop_begin_def all_inactive_def recorder_states_def)
qed

lemma step_Settled:
  assumes "step P env w (Settled r) = Some w'"
  shows "pendingStarts w' = pendingStarts w"
    and "pendingStops w' = pendingStops w"
    and "pipelines w' = filter (\<lambda>p. fst p \<noteq> r) (pipelines w)"
  using assms by (auto split: option.splits prod.splits)

lemma step_Settled_component:
  assumes "step P env w (Settled r) = Some w'"
  obtains q m where "find (\<lambda>p. fst p = r) (pipelines w) = Some q"
    and "lookup (recorders (component w)) r = Some m"
    and "component w' =
      onstop_finish ((component w)\<lparr>requests := fst (snd q)\<rparr>) (stream m) (snd (snd q))"
  using assms by (auto split: option.splits prod.splits)

lemma Settled_transcribing:
  assumes "step P env w (Settled r) = Some w'" and "inv w"
  shows "idle w'"
proof -
  from assms(1) obtain q m where
    f: "find (\<lambda>p. fst p = r) (pipelines w) = Some q"
    and "lookup (recorders (component w)) r = Some m"
    and c': "component w' =
      onstop_finish ((component w)\<lparr>requests := fst (snd q)\<rparr>) (stream m) (snd (snd q))"
    by (rule step_Settled_component)
  from f have "pipelines w \<noteq> []" by auto
  then have t: "transcribing w"
    using assms(2) by (auto simp: inv_def idle_def starting_def capturing_def stopping_def)
  then obtain p where p: "pipelines w = [p]"
    by (auto simp: transcribing_def length_Suc_conv)
  with f have "fst p = r" by (auto split: if_splits)
  then have "pipelines w' = []"
    using step_Settled(3) [OF assms(1)] p by simp
  then show ?thesis
    using t step_Settled(1,2) [OF assms(1)]
    by (simp add: c' transcribing_def idle_def onstop_finish_fields all_inactive_def recorder_states_def)
qed

lemma chunks_step:
  assumes "step P env w ev = Some w'"
    and "list_all (\<lambda>d. 0 < length d) (audioChunksRef (component w))"
  shows "list_all (\<lambda>d. 0 < length d) (audioChunksRef (component w'))"
proof (cases ev)
  case Click
  then show ?thesis
    using assms step_Click(2) [of P env w w']
    by (simp add: toggleRecording_def stopRecording_def startRecording_begin_def
        MediaRecorder_stop_def split: option.splits)
next
  case Granted
  then show ?thesis
    using assms step_Granted(2) [of P env w w'] by (simp add: startRecording_resume_def)
next
  case (Denied e)
  then show ?thesis
    using assms step_Denied(2) [of P env w e w'] by (simp add: startRecording_resume_def)
next
  case (DataAvailable r d)
  then show ?thesis
    using assms step_DataAvailable(2) [of P env w r d w'] by (simp add: ondataavailable_def)
next
  case (TracksEnded r)
  then show ?thesis
    using assms step_TracksEnded(2) [of P env w r w'] by simp
next
  case (StopEvent r)
  then show ?thesis
    using assms step_StopEvent(2) [of P env w r w'] by (simp add: onstop_begin_def)
next
  case (Settled r)
  then have st: "step P env w (Settled r) = Some w'"
    using assms(1) by simp
  from st obtain q m where "find (\<lambda>p. fst p = r) (pipelines w) = Some q"
    and "lookup (recorders (component w)) r = Some m"
    and "component w' =
      onstop_finish ((component w)\<lparr>requests := fst (snd q)\<rparr>) (stream m) (snd (snd q))"
    by (rule step_Settled_component)
  then show ?thesis
    using assms(2) by (simp add: onstop_finish_fields)
qed

lemma inv_step:
  assumes "inv w" and "step P env w ev = Some w'"
  shows "inv w'"
proof -
  have chunks: "list_all (\<lambda>d. 0 < length d) (audioChunksRef (component w'))"
    using chunks_step [OF assms(2)] assms(1) by (simp add: inv_def)
  have phase: "idle w \<or> starting w \<or> capturing w \<or> stopping w \<or> transcribing w"
    using assms(1) by (simp add: inv_def)
  have "idle w' \<or> starting w' \<or> capturing w' \<or> stopping w' \<or> transcribing w'"
  proof (cases ev)
    case Click
    from phase consider "idle w" | "starting w" | "capturing w" | "stopping w" | "transcribing w"
      by blast
    then show ?thesis
    proof cases
      case 1
      then show ?thesis using assms(2) Click Click_idle by blast
    next
      case 2
      then show ?thesis using assms(2) Click Click_starting by blast
    next
      case 3
      then show ?thesis using assms(2) Click Click_capturing by blast
    next
      case 4
      then show ?thesis using assms(2) Click Click_stopping by blast
    next
      case 5
      then show ?thesis using assms(2) Click Click_transcribing [of w P env] by simp
    qed
  next
    case Granted
    then show ?thesis
      using assms Granted_enabled Granted_starting by blast
  next
    case (Denied e)
    then show ?thesis
      using assms Denied_enabled Denied_starting by blast
  next
    case (DataAvailable r d)
    then show ?thesis
      using phase assms(2) DataAvailable_phase [of P env w r d w'] by simp
  next
    case (TracksEnded r)
    then show ?thesis
      using assms TracksEnded_capturing by blast
  next
    case (StopEvent r)
    then show ?thesis
      using assms StopEvent_stopping by blast
  next
    case (Settled r)
    then show ?thesis
      using assms Settled_transcribing by blast
  qed
  with chunks show ?thesis by (simp add: inv_def)
qed

lemma inv_run: "inv w \<Longrightarrow> run P env w es = Some w' \<Longrightarrow> inv w'"
proof (induction es arbitrary: w)
  case Nil
  then show ?case by simp
next
  case (Cons e es)
  then show ?case
    by (auto split: option.splits intro: inv_step)
qed

lemma inv_one_recorder:
  assumes "inv w" and "is_recording (component w) r" and "is_recording (component w) r'"
  shows "r = r'"
proof -
  have "\<not> all_inactive w"
    using assms(2) all_inactive_not_recording by blast
  then have "capturing w"
    using assms(1) by (auto simp: inv_def idle_def starting_def stopping_def transcribing_def)
  then show ?thesis
    using assms(2,3) capturing_is_recording by simp
qed

lemma recording_count:
  "r < n \<Longrightarrow> length (filter (\<lambda>s. s = recording) ((replicate n inactive)[r := recording])) = 1"
proof (induction n arbitrary: r)
  case 0
  then show ?case by simp
next
  case (Suc n)
  then show ?case by (cases r) simp_all
qed

lemma filter_states:
  "length (filter (\<lambda>m. state m = recording) xs) = length (filter (\<lambda>s. s = recording) (map state xs))"
  by (simp add: filter_map comp_def)

lemma inv_sessions:
  assumes "inv w"
  shows "length (filter (\<lambda>m. state m = recording) (recorders (component w))) + pendingStarts w +
    length (pendingStops w) + length (pipelines w) \<le> 1"
proof -
  have none: "length (filter (\<lambda>m. state m = recording) (recorders (component w))) = 0"
    if "all_inactive w"
    using that by (simp add: filter_states all_inactive_def recorder_states_def)
  have one: "length (filter (\<lambda>m. state m = recording) (recorders (component w))) = 1"
    if "capturing w"
  proof -
    from that obtain r where "r < length (recorders (component w))"
      "recorder_states w = (replicate (length (recorders (component w))) inactive)[r := recording]"
      by (rule capturing_ref)
    then show ?thesis
      using recording_count [of r "length (recorders (component w))"]
      by (simp add: filter_states recorder_states_def)
  qed
  from assms consider "idle w" | "starting w" | "capturing w" | "stopping w" | "transcribing w"
    by (auto simp: inv_def)
  then show ?thesis
  proof cases
    case 1
    then show ?thesis using none by (simp add: idle_def)
  next
    case 2
    then show ?thesis using none by (simp add: starting_def)
  next
    case 3
    then show ?thesis using one by (simp add: capturing_def)
  next
    case 4
    then show ?thesis using none by (simp add: stopping_def)
  next
    case 5
    then show ?thesis using none by (simp add: transcribing_def)
  qed
qed

text \<open>
  Claim C5, as the code has it. The guard is in \<open>toggleRecording\<close>, the only caller of
  \<open>startRecording\<close>: while \<open>isRecording\<close> is true it calls \<open>stopRecording\<close> instead, which
  makes no recorder and no stream and leaves the chunk sequence and \<open>mediaRecorderRef\<close> as they
  are; \<open>startRecording\<close> is called only while \<open>isRecording\<close> is false. So in every world
  reached from the initial one by clicks and platform events at most one recorder is
  recording, and at most one cycle is under way in any of its phases.
\<close>

theorem toggleRecording_guard:
  "(isRecording (voiceState s) \<longrightarrow>
      toggleRecording s = stopRecording s \<and>
      audioChunksRef (toggleRecording s) = audioChunksRef s \<and>
      length (recorders (toggleRecording s)) = length (recorders s) \<and>
      length (streams (toggleRecording s)) = length (streams s) \<and>
      mediaRecorderRef (toggleRecording s) = mediaRecorderRef s) \<and>
   (\<not> isRecording (voiceState s) \<longrightarrow> toggleRecording s = startRecording_begin s) \<and>
   (run P env initial_world es = Some w \<longrightarrow>
      (\<forall>r r'. is_recording (component w) r \<and> is_recording (component w) r' \<longrightarrow> r = r') \<and>
      length (filter (\<lambda>m. state m = recording) (recorders (component w))) + pendingStarts w +
        length (pendingStops w) + length (pipelines w) \<le> 1)"
proof -
  have "audioChunksRef (stopRecording s) = audioChunksRef s"
    "length (recorders (stopRecording s)) = length (recorders s)"
    "length (streams (stopRecording s)) = length (streams s)"
    "mediaRecorderRef (stopRecording s) = mediaRecorderRef s"
    by (simp_all add: stopRecording_def MediaRecorder_stop_def split: option.splits)
  moreover have "inv w" if "run P env initial_world es = Some w"
    using inv_run [OF inv_initial that] .
  ultimately show ?thesis
    using inv_one_recorder [of w] inv_sessions [of w]
    by (auto simp: toggleRecording_def)
qed

theorem toggleRecording_guard_witness:
  "isRecording (voiceState capturing_example) \<and>
   toggleRecording capturing_example = stopRecording capturing_example \<and>
   audioChunksRef (toggleRecording capturing_example) = audioChunksRef capturing_example \<and>
   \<not> isRecording (voiceState initial) \<and>
   toggleRecording initial = startRecording_begin initial \<and>
   run safari None initial_world [Click, Granted, DataAvailable 0 [1, 2, 3], Click] =
     Some \<lparr>component = MediaRecorder_stop capturing_example 0, pendingStarts = 0,
       pendingStops = [0], pipelines = []\<rparr> \<and>
   length (filter (\<lambda>m. state m = recording) (recorders (MediaRecorder_stop capturing_example 0))) \<le> 1"
proof -
  let ?es = "[Click, Granted, DataAvailable 0 [1, 2, 3], Click]"
  let ?w = "\<lparr>component = MediaRecorder_stop capturing_example 0, pendingStarts = 0,
    pendingStops = [0], pipelines = []\<rparr>"
  have run: "run safari None initial_world ?es = Some ?w"
    by (simp add: initial_world_def initial_def toggleRecording_def startRecording_begin_def
        startRecording_resume_def startRecording_def stopRecording_def MediaRecorder_stop_def
        ondataavailable_def is_recording_def lookup_def capturing_example_def Let_def)
  have ex: "isRecording (voiceState capturing_example)" "\<not> isRecording (voiceState initial)"
    by (simp_all add: capturing_example_def initial_def startRecording_def startRecording_begin_def
        startRecording_resume_def ondataavailable_def)
  note g1 = toggleRecording_guard [of capturing_example safari None ?es ?w]
  note g2 = toggleRecording_guard [of initial safari None ?es ?w]
  from g1 ex(1) have a: "toggleRecording capturing_example = stopRecording capturing_example"
    and b: "audioChunksRef (toggleRecording capturing_example) = audioChunksRef capturing_example"
    by blast+
  from g2 ex(2) have c: "toggleRecording initial = startRecording_begin initial"
    by blast
  from g1 run have "length (filter (\<lambda>m. state m = recording) (recorders (component ?w))) +
      pendingStarts ?w + length (pendingStops ?w) + length (pipelines ?w) \<le> 1"
    by blast
  then have d: "length (filter (\<lambda>m. state m = recording)
      (recorders (MediaRecorder_stop capturing_example 0))) \<le> 1"
    by simp
  from ex(1) a b ex(2) c run d show ?thesis
    by (intro conjI)
qed

text \<open>
  \<open>startRecording\<close> itself has no guard. Called while a recorder is recording and has
  delivered a chunk, it empties the chunk sequence and leaves two recorders recording.
\<close>

theorem startRecording_unguarded_counterexample:
  "isRecording (voiceState capturing_example) \<and>
   audioChunksRef capturing_example = [[1, 2, 3]] \<and>
   map state (recorders capturing_example) = [recording] \<and>
   audioChunksRef (startRecording capturing_example (Inr ())) = [] \<and>
   map state (recorders (startRecording capturing_example (Inr ()))) = [recording, recording] \<and>
   startRecording capturing_example (Inr ()) \<noteq> capturing_example"
proof -
  have "audioChunksRef (startRecording capturing_example (Inr ())) \<noteq> audioChunksRef capturing_example"
    by (simp add: capturing_example_def initial_def startRecording_def startRecording_begin_def
        startRecording_resume_def ondataavailable_def)
  then have "startRecording capturing_example (Inr ()) \<noteq> capturing_example"
    by auto
  then show ?thesis
    by (simp add: capturing_example_def initial_def startRecording_def startRecording_begin_def
        startRecording_resume_def ondataavailable_def)
qed


























lemma feed_Nil [simp]: "feed s [] = s"
  by (simp add: feed_def)

lemma feed_Cons [simp]: "feed s (d # ds) = feed (ondataavailable s d) ds"
  by (simp add: feed_def)

lemma feed_chunks:
  "audioChunksRef (feed s ds) = audioChunksRef s @ filter (\<lambda>d. 0 < length d) ds"
  by (induction ds arbitrary: s) (simp_all add: ondataavailable_def)

lemma concat_filter_nonempty: "concat (filter (\<lambda>d. 0 < length d) ds) = concat ds"
  by (induction ds) auto

text \<open>
  Claim C9. A data event of size 0 leaves the component as it is; one of positive size
  appends its chunk. After a start, the chunk sequence is the sequence of the non-empty
  payloads delivered, so every chunk in it has positive size and their concatenation is
  the concatenation of all payloads; and every chunk is non-empty in every world reached
  from the initial one.
\<close>

theorem chunks_nonempty:
  "(length d = 0 \<longrightarrow> ondataavailable s d = s) \<and>
   (0 < length d \<longrightarrow> ondataavailable s d = s\<lparr>audioChunksRef := audioChunksRef s @ [d]\<rparr>) \<and>
   audioChunksRef (feed (startRecording s (Inr ())) ds) = filter (\<lambda>d. 0 < length d) ds \<and>
   (\<forall>c \<in> set (audioChunksRef (feed (startRecording s (Inr ())) ds)). 0 < length c) \<and>
   concat (audioChunksRef (feed (startRecording s (Inr ())) ds)) = concat ds \<and>
   (run P env initial_world es = Some w \<longrightarrow>
      (\<forall>c \<in> set (audioChunksRef (component w)). 0 < length c))"
proof -
  have start: "audioChunksRef (startRecording s (Inr ())) = []"
    by (simp add: startRecording_def startRecording_resume_def)
  have chunks: "audioChunksRef (feed (startRecording s (Inr ())) ds) = filter (\<lambda>d. 0 < length d) ds"
    by (simp add: feed_chunks start)
  have reach: "\<forall>c \<in> set (audioChunksRef (component w)). 0 < length c"
    if "run P env initial_world es = Some w"
    using inv_run [OF inv_initial that] by (simp add: inv_def list_all_iff)
  show ?thesis
    unfolding chunks using reach concat_filter_nonempty [of ds]
    by (simp add: ondataavailable_def)
qed

theorem chunks_nonempty_witness:
  "length ([] :: byte list) = 0 \<and> ondataavailable initial [] = initial \<and>
   audioChunksRef (ondataavailable initial [7]) = [[7]] \<and>
   audioChunksRef (feed (startRecording initial (Inr ())) [[1, 2], [], [3]]) = [[1, 2], [3]] \<and>
   concat (audioChunksRef (feed (startRecording initial (Inr ())) [[1, 2], [], [3]])) = [1, 2, 3] \<and>
   run safari None initial_world [Click, Granted, DataAvailable 0 [], DataAvailable 0 [1, 2, 3]] =
     Some \<lparr>component = capturing_example, pendingStarts = 0, pendingStops = [], pipelines = []\<rparr> \<and>
   audioChunksRef capturing_example = [[1, 2, 3]]"
proof -
  let ?es = "[Click, Granted, DataAvailable 0 [], DataAvailable 0 [1, 2, 3]]"
  let ?w = "\<lparr>component = capturing_example, pendingStarts = 0, pendingStops = [], pipelines = []\<rparr>"
  have run: "run safari None initial_world ?es = Some ?w"
    by (simp add: initial_world_def initial_def toggleRecording_def startRecording_begin_def
        startRecording_resume_def startRecording_def stopRecording_def
        ondataavailable_def is_recording_def lookup_def capturing_example_def Let_def)
  note t1 = chunks_nonempty [of "[]" initial "[[1, 2], [], [3]]" safari None ?es ?w]
  note t2 = chunks_nonempty [of "[7]" initial "[[1, 2], [], [3]]" safari None ?es ?w]
  from t1 have a: "ondataavailable initial [] = initial"
    and c: "audioChunksRef (feed (startRecording initial (Inr ())) [[1, 2], [], [3]]) = [[1, 2], [3]]"
    and d: "concat (audioChunksRef (feed (startRecording initial (Inr ())) [[1, 2], [], [3]])) = [1, 2, 3]"
    by simp_all
  from t2 have b: "audioChunksRef (ondataavailable initial [7]) = [[7]]"
    by (simp add: initial_def)
  have e: "audioChunksRef capturing_example = [[1, 2, 3]]"
    by (simp add: capturing_example_def initial_def startRecording_def startRecording_begin_def
        startRecording_resume_def ondataavailable_def)
  have z: "length ([] :: byte list) = 0" by simp
  from z a b c d run e show ?thesis
    by (intro conjI)
qed

end
